theory Spec2Isabelle
  imports Main "HOL-Library.Word" "HOL-Library.Extended_Nat"
begin

unbundle bit_operations_syntax

chapter \<open>Model\<close>

section \<open>Machine types and kernel faults\<close>

text \<open>
  The kernel is C for a 64-bit RISC-V machine: \<open>uint64\<close> and pointers are 64-bit words,
  \<open>uint\<close> is a 32-bit word, \<open>ushort\<close> a 16-bit word and \<open>uchar\<close> a byte.  Unsigned
  arithmetic wraps around.  A call of \<open>panic\<close> halts the kernel; a function that can
  panic returns \<open>Inl (Panic msg)\<close> instead of a result.
\<close>

type_synonym uint64 = "64 word"
type_synonym uint = "32 word"
type_synonym ushort = "16 word"
type_synonym uchar = "8 word"

datatype kfault = Panic string

section \<open>Physical page allocator (kalloc.c, memlayout.h)\<close>

text \<open>
  Modelled from the spec: \<open>PGSIZE\<close> is defined in riscv.h, which is not among the
  sources; a frame is a 4 KiB page, and kalloc.c says it allocates whole 4096-byte pages.
\<close>

definition PGSIZE :: nat where
  "PGSIZE = 4096"

definition KERNBASE :: uint64 where
  "KERNBASE = 0x80000000"

definition PHYSTOP :: uint64 where
  "PHYSTOP = KERNBASE + 128 * 1024 * 1024"

text \<open>Physical memory, byte addressed.\<close>

type_synonym physmem = "uint64 \<Rightarrow> uchar"

text \<open>
  Modelled from the spec: \<open>memset\<close> lives in string.c, which is not among the sources;
  it has the meaning of the C library function: the \<open>n\<close> bytes from \<open>dst\<close> on
  become \<open>c\<close>.
\<close>

definition memset :: "physmem \<Rightarrow> uint64 \<Rightarrow> uchar \<Rightarrow> nat \<Rightarrow> physmem" where
  "memset m dst c n = (\<lambda>a. if unat (a - dst) < n then c else m a)"

text \<open>
  A \<open>struct run\<close> is one pointer, \<open>next\<close>, stored in the first eight bytes of the free
  page itself (little endian on RISC-V).
\<close>

definition store64 :: "physmem \<Rightarrow> uint64 \<Rightarrow> uint64 \<Rightarrow> physmem" where
  "store64 m p v =
     (\<lambda>a. if unat (a - p) < 8 then ucast (drop_bit (8 * unat (a - p)) v) else m a)"

definition load64 :: "physmem \<Rightarrow> uint64 \<Rightarrow> uint64" where
  "load64 m p = horner_sum ucast (256 :: uint64) (map (\<lambda>i. m (p + of_nat i)) [0..<8])"

record kmem =
  mem :: physmem
  freelist :: uint64

text \<open>
  \<open>kfree\<close>; \<open>kend\<close> is the linker symbol \<open>end\<close>, the first address after the kernel
  image.  The null pointer is the word 0.
\<close>

definition kfree :: "uint64 \<Rightarrow> uint64 \<Rightarrow> kmem \<Rightarrow> kfault + kmem" where
  "kfree kend pa s =
     (if unat pa mod PGSIZE \<noteq> 0 \<or> pa < kend \<or> PHYSTOP \<le> pa then Inl (Panic ''kfree'')
      else let filled = memset (mem s) pa 1 PGSIZE
           in Inr \<lparr>mem = store64 filled pa (freelist s), freelist = pa\<rparr>)"

text \<open>\<open>kalloc\<close> returns the page (0 when the list is empty) and the new allocator state.\<close>

definition kalloc :: "kmem \<Rightarrow> uint64 \<times> kmem" where
  "kalloc s =
     (let r = freelist s;
          s1 = (if r \<noteq> 0 then s\<lparr>freelist := load64 (mem s) r\<rparr> else s);
          s2 = (if r \<noteq> 0 then s1\<lparr>mem := memset (mem s1) r 5 PGSIZE\<rparr> else s1)
      in (r, s2))"

section \<open>Write-ahead log: in-memory state and log_write (log.c, param.h, buf.h)\<close>

text \<open>
  \<open>struct logheader\<close> and \<open>struct log\<close>.  The C \<open>int\<close> fields are integers (the
  guards of \<open>log_write\<close> keep the count far from overflow); the \<open>block\<close> array holds
  block numbers, which are compared and assigned as 32-bit patterns.  The spin lock is not
  modelled: every function of the log runs under \<open>log.lock\<close>, one call at a time.
\<close>

definition MAXOPBLOCKS :: int where "MAXOPBLOCKS = 10"
definition LOGSIZE :: int where "LOGSIZE = MAXOPBLOCKS * 3"

record logheader =
  lh_n :: int
  lh_block :: "uint list"

record log =
  start :: int
  lsize :: int
  outstanding :: int
  committing :: int
  ldev :: int
  lh :: logheader

text \<open>\<open>struct buf\<close> without its lock and LRU links.\<close>

record buf =
  bvalid :: int
  disk :: int
  bdev :: uint
  blockno :: uint
  refcnt :: uint
  bdata :: "nat \<Rightarrow> uchar"

text \<open>
  Modelled from the spec: \<open>bpin\<close> is defined in bio.c, which is not among the sources;
  pinning biases the reference count of the buffer so that it stays in the cache.
\<close>

definition bpin :: "buf \<Rightarrow> buf" where
  "bpin b = b\<lparr>refcnt := refcnt b + 1\<rparr>"

text \<open>
  The search loop of \<open>log_write\<close>: the first index below \<open>lh.n\<close> that holds the block
  number, \<open>lh.n\<close> when there is none.
\<close>

function log_scan :: "logheader \<Rightarrow> uint \<Rightarrow> int \<Rightarrow> int" where
  "log_scan h bno i =
     (if i < lh_n h then (if lh_block h ! nat i = bno then i else log_scan h bno (i + 1)) else i)"
  by pat_completeness auto
termination
  by (relation "measure (\<lambda>(h, bno, i). nat (lh_n h - i))") auto

declare log_scan.simps [simp del]

definition log_write :: "log \<Rightarrow> buf \<Rightarrow> kfault + (log \<times> buf)" where
  "log_write l b =
     (if LOGSIZE \<le> lh_n (lh l) \<or> lsize l - 1 \<le> lh_n (lh l) then Inl (Panic ''too big a transaction'')
      else if outstanding l < 1 then Inl (Panic ''log_write outside of trans'')
      else let i = log_scan (lh l) (blockno b) 0;
               h1 = (lh l)\<lparr>lh_block := (lh_block (lh l))[nat i := blockno b]\<rparr>
           in if i = lh_n (lh l)
              then Inr (l\<lparr>lh := h1\<lparr>lh_n := lh_n h1 + 1\<rparr>\<rparr>, bpin b)
              else Inr (l\<lparr>lh := h1\<rparr>, b))"

text \<open>The block number appears in the first \<open>lh.n\<close> slots of the header.\<close>

definition in_header :: "logheader \<Rightarrow> uint \<Rightarrow> bool" where
  "in_header h bno = (bno \<in> set (take (nat (lh_n h)) (lh_block h)))"


text \<open>
  The states the log is ever in: a non-negative count and a \<open>block\<close> array of
  \<open>LOGSIZE\<close> entries.  \<open>log_guard\<close> collects the three checks \<open>log_write\<close> makes before
  it touches the header.
\<close>

definition log_wf :: "log \<Rightarrow> bool" where
  "log_wf l = (0 \<le> lh_n (lh l) \<and> length (lh_block (lh l)) = nat LOGSIZE)"

definition log_guard :: "log \<Rightarrow> bool" where
  "log_guard l = (lh_n (lh l) < LOGSIZE \<and> lh_n (lh l) < lsize l - 1 \<and> 1 \<le> outstanding l)"

fun log_write_times :: "nat \<Rightarrow> log \<Rightarrow> buf \<Rightarrow> kfault + (log \<times> buf)" where
  "log_write_times 0 l b = Inr (l, b)"
| "log_write_times (Suc k) l b =
     (case log_write l b of Inl e \<Rightarrow> Inl e | Inr (l', b') \<Rightarrow> log_write_times k l' b')"


text \<open>Example states: a log with two blocks recorded, and a log whose area is used up.\<close>

definition ex_log :: log where
  "ex_log = \<lparr>start = 2, lsize = 30, outstanding = 1, committing = 0, ldev = 1,
             lh = \<lparr>lh_n = 2, lh_block = [33, 34] @ replicate 28 0\<rparr>\<rparr>"

definition ex_buf :: "uint \<Rightarrow> buf" where
  "ex_buf bno = \<lparr>bvalid = 1, disk = 0, bdev = 1, blockno = bno, refcnt = 1, bdata = (\<lambda>_. 0)\<rparr>"


definition full_log :: log where
  "full_log = \<lparr>start = 2, lsize = 30, outstanding = 1, committing = 0, ldev = 1,
               lh = \<lparr>lh_n = 29, lh_block = map of_nat [33 ..< 62] @ [0]\<rparr>\<rparr>"

section \<open>Pipes (pipe.c)\<close>

definition PIPESIZE :: nat where "PIPESIZE = 512"

text \<open>
  \<open>struct pipe\<close> without its lock.  The ring is indexed by \<open>nread % PIPESIZE\<close> and
  \<open>nwrite % PIPESIZE\<close>, so only the offsets below \<open>PIPESIZE\<close> are ever used.
\<close>

record pipe =
  pdata :: "nat \<Rightarrow> uchar"
  nread :: uint
  nwrite :: uint
  readopen :: int
  writeopen :: int

text \<open>
  \<open>pipewrite\<close>.  The user buffer is read one byte at a time with \<open>copyin\<close>, which
  is defined in vm.c and not among the sources: \<open>src i\<close> is what the call for
  \<open>addr + i\<close> yields, \<open>None\<close> when it returns -1.  \<open>kld\<close> is what \<open>killed(pr)\<close> returns.
  \<open>sleep\<close> gives the processor away with the pipe lock released; the call then is
  \<open>PW_sleep i pip\<close>, and it goes on, once woken, as \<open>pipewrite_loop\<close> from \<open>i\<close> in the
  pipe as it is by then.  \<open>wakeup\<close> changes no field of the pipe.
\<close>

datatype pw_result = PW_return int pipe | PW_sleep int pipe

function pipewrite_loop ::
  "(nat \<Rightarrow> uchar option) \<Rightarrow> bool \<Rightarrow> int \<Rightarrow> pipe \<Rightarrow> int \<Rightarrow> pw_result" where
  "pipewrite_loop src kld n pip i =
     (if i < n then
        (if readopen pip = 0 \<or> kld then PW_return (- 1) pip
         else if nwrite pip = nread pip + of_nat PIPESIZE then PW_sleep i pip
         else (case src (nat i) of
                 None \<Rightarrow> PW_return i pip
               | Some ch \<Rightarrow>
                   pipewrite_loop src kld n
                     (pip\<lparr>pdata := (pdata pip)(unat (nwrite pip) mod PIPESIZE := ch),
                         nwrite := nwrite pip + 1\<rparr>) (i + 1)))
      else PW_return i pip)"
  by pat_completeness auto
termination
  by (relation "measure (\<lambda>(src, kld, n, pip, i). nat (n - i))") auto

declare pipewrite_loop.simps [simp del]

definition pipewrite :: "(nat \<Rightarrow> uchar option) \<Rightarrow> bool \<Rightarrow> int \<Rightarrow> pipe \<Rightarrow> pw_result" where
  "pipewrite src kld n pip = pipewrite_loop src kld n pip 0"

text \<open>
  \<open>piperead\<close>.  \<open>dst_ok i\<close> says whether \<open>copyout\<close> (vm.c, not among the sources)
  to \<open>addr + i\<close> succeeds; the result carries the bytes that reached the user buffer,
  in order.
\<close>

datatype pr_result = PR_return int "uchar list" pipe | PR_sleep pipe

function piperead_loop ::
  "(nat \<Rightarrow> bool) \<Rightarrow> int \<Rightarrow> pipe \<Rightarrow> int \<Rightarrow> uchar list \<Rightarrow> pr_result" where
  "piperead_loop dst_ok n pip i out =
     (if i < n then
        (if nread pip = nwrite pip then PR_return i out pip
         else let ch = pdata pip (unat (nread pip) mod PIPESIZE);
                  pip' = pip\<lparr>nread := nread pip + 1\<rparr>
              in if dst_ok (nat i) then piperead_loop dst_ok n pip' (i + 1) (out @ [ch])
                 else PR_return i out pip')
      else PR_return i out pip)"
  by pat_completeness auto
termination
  by (relation "measure (\<lambda>(dst_ok, n, pip, i, out). nat (n - i))") auto

declare piperead_loop.simps [simp del]

definition piperead :: "(nat \<Rightarrow> bool) \<Rightarrow> bool \<Rightarrow> int \<Rightarrow> pipe \<Rightarrow> pr_result" where
  "piperead dst_ok kld n pip =
     (if nread pip = nwrite pip \<and> writeopen pip \<noteq> 0
      then (if kld then PR_return (- 1) [] pip else PR_sleep pip)
      else piperead_loop dst_ok n pip 0 [])"

fun pw_pipe :: "pw_result \<Rightarrow> pipe" where
  "pw_pipe (PW_return r pip) = pip"
| "pw_pipe (PW_sleep i pip) = pip"

fun pr_pipe :: "pr_result \<Rightarrow> pipe" where
  "pr_pipe (PR_return r out pip) = pip"
| "pr_pipe (PR_sleep pip) = pip"

text \<open>The number of unread bytes, computed as the code computes with the counters.\<close>

definition ring_ok :: "pipe \<Rightarrow> bool" where
  "ring_ok pip = (unat (nwrite pip - nread pip) \<le> PIPESIZE)"

text \<open>The pipe as \<open>pipealloc\<close> sets it up; the page of the ring comes from \<open>kalloc\<close>.\<close>

definition pipealloc_init :: "(nat \<Rightarrow> uchar) \<Rightarrow> pipe" where
  "pipealloc_init d = \<lparr>pdata = d, nread = 0, nwrite = 0, readopen = 1, writeopen = 1\<rparr>"

text \<open>
  Example pipes: one whose counters are about to wrap around, and one into which the two
  bytes \<open>a\<close> and \<open>b\<close> have been written.
\<close>

definition wrap_pipe :: pipe where
  "wrap_pipe = \<lparr>pdata = (\<lambda>_. 0), nread = 0xFFFFFFFF, nwrite = 0xFFFFFFFF,
                 readopen = 1, writeopen = 1\<rparr>"

definition ab_pipe :: pipe where
  "ab_pipe = pw_pipe (pipewrite (\<lambda>i. Some (if i = 0 then 0x61 else 0x62)) False 2
                        (pipealloc_init (\<lambda>_. 5)))"

section \<open>Processes: fork and wait (proc.c, param.h)\<close>

definition NPROC :: nat where "NPROC = 64"
definition NOFILE :: nat where "NOFILE = 16"

text \<open>The states of a process slot and the fields of a trap frame (proc.h, as the notes list them).\<close>

datatype procstate = UNUSED | USED | SLEEPING | RUNNABLE | RUNNING | ZOMBIE

datatype treg =
    Kernel_satp | Kernel_sp | Kernel_trap | Epc | Kernel_hartid
  | Ra | Sp | Gp | Tp | T0 | T1 | T2 | S0 | S1
  | A0 | A1 | A2 | A3 | A4 | A5 | A6 | A7
  | S2 | S3 | S4 | S5 | S6 | S7 | S8 | S9 | S10 | S11
  | T3 | T4 | T5 | T6

text \<open>
  A trap frame is the value of its 36 slots.  The user address space of a process is what
  its page table makes of user addresses: the byte at each mapped address, \<open>None\<close> where
  nothing is mapped for the user.
\<close>

type_synonym trapframe = "treg \<Rightarrow> uint64"
type_synonym pagetable = "uint64 \<Rightarrow> uchar option"

text \<open>
  \<open>struct proc\<close>.  A pointer to a process is its index in the table, a pointer to a file
  or an inode the index of the entry, \<open>None\<close> the null pointer; \<open>trapframe\<close> and
  \<open>pagetable\<close> hold what the pointers point to.  The slot lock, the kernel stack and the
  saved kernel context belong to the scheduler and are left out; the functions below run
  one at a time, as they do under \<open>wait_lock\<close> and the slot locks.
\<close>

record proc =
  pstate :: procstate
  chan :: uint64
  killed :: int
  xstate :: int
  pid :: int
  parent :: "nat option"
  sz :: uint64
  pagetable :: "pagetable option"
  trapframe :: "trapframe option"
  ofile :: "nat option list"
  cwd :: "nat option"
  pname :: string

text \<open>
  The process table, the pid counter, and the reference counts of the file table (\<open>f->ref\<close>)
  and of the inode table (\<open>ip->ref\<close>).
\<close>

record kstate =
  procs :: "proc list"
  nextpid :: int
  fref :: "nat \<Rightarrow> int"
  iref :: "nat \<Rightarrow> int"

text \<open>
  Whether the allocations of a \<open>fork\<close> succeed: \<open>kalloc\<close> for the trap frame and
  \<open>proc_pagetable\<close> in \<open>allocproc\<close>, and \<open>uvmcopy\<close>.  They depend on the free memory,
  through functions of vm.c that are not among the sources.
\<close>

record alloc_env =
  trapframe_ok :: bool
  pagetable_ok :: bool
  uvmcopy_ok :: bool

text \<open>\<open>freeproc\<close>: the trap frame and the page table are given back, the fields cleared.\<close>

definition freeproc :: "proc \<Rightarrow> proc" where
  "freeproc p = p\<lparr>trapframe := None, pagetable := None, sz := 0, pid := 0, parent := None,
                   pname := [], chan := 0, killed := 0, xstate := 0, pstate := UNUSED\<rparr>"

text \<open>
  \<open>allocproc\<close>: the first \<open>UNUSED\<close> slot gets the next pid, a trap frame page (filled with
  the junk of \<open>kalloc\<close>) and an empty user page table; a failed allocation frees the slot
  again.  The result is the slot, or \<open>None\<close> for the null pointer.
\<close>

fun find_unused :: "proc list \<Rightarrow> nat \<Rightarrow> nat option" where
  "find_unused [] i = None"
| "find_unused (p # ps) i = (if pstate p = UNUSED then Some i else find_unused ps (Suc i))"

definition allocproc :: "alloc_env \<Rightarrow> kstate \<Rightarrow> nat option \<times> kstate" where
  "allocproc env ks =
     (case find_unused (procs ks) 0 of
        None \<Rightarrow> (None, ks)
      | Some i \<Rightarrow>
          let p0 = procs ks ! i;
              p1 = p0\<lparr>pid := nextpid ks, pstate := USED\<rparr>;
              ks1 = ks\<lparr>nextpid := nextpid ks + 1\<rparr>
          in if \<not> trapframe_ok env
             then (None, ks1\<lparr>procs := (procs ks1)[i := freeproc (p1\<lparr>trapframe := None\<rparr>)]\<rparr>)
             else let p2 = p1\<lparr>trapframe := Some (\<lambda>_. 0x0505050505050505)\<rparr>
                  in if \<not> pagetable_ok env
                     then (None, ks1\<lparr>procs := (procs ks1)[i := freeproc (p2\<lparr>pagetable := None\<rparr>)]\<rparr>)
                     else (Some i, ks1\<lparr>procs := (procs ks1)[i := p2\<lparr>pagetable := Some (\<lambda>_. None)\<rparr>]\<rparr>))"

text \<open>
  Modelled from the spec: \<open>uvmcopy\<close> is defined in vm.c, which is not among the sources.
  It deep-copies the parent's user address space (page table and physical pages): the
  child's table maps every page below the parent's size to a page of its own that holds
  the same bytes.
\<close>

definition PGROUNDUP :: "nat \<Rightarrow> nat" where
  "PGROUNDUP n = ((n + 4095) div 4096) * 4096"

definition uvmcopy :: "pagetable \<Rightarrow> pagetable \<Rightarrow> uint64 \<Rightarrow> pagetable" where
  "uvmcopy old new n = (\<lambda>a. if unat a < PGROUNDUP (unat n) then old a else new a)"

text \<open>
  Modelled from the spec: \<open>filedup\<close> is defined in file.c, which is not among the
  sources.  It duplicates an open-file reference: the reference count of the file goes up
  by one and the same file is returned.
\<close>

definition filedup :: "nat \<Rightarrow> kstate \<Rightarrow> kstate" where
  "filedup f ks = ks\<lparr>fref := (fref ks)(f := fref ks f + 1)\<rparr>"

text \<open>\<open>idup\<close> (fs.c).\<close>

definition idup :: "nat \<Rightarrow> kstate \<Rightarrow> kstate" where
  "idup ip ks = ks\<lparr>iref := (iref ks)(ip := iref ks ip + 1)\<rparr>"

text \<open>
  The descriptor loop of \<open>fork\<close>: a descriptor the parent has open is duplicated into
  the child's table; the child's entry is left as it is where the parent has none.
\<close>

fun fork_ofile :: "nat option list \<Rightarrow> nat option list \<Rightarrow> kstate \<Rightarrow> nat option list \<times> kstate" where
  "fork_ofile [] nfs ks = (nfs, ks)"
| "fork_ofile (pf # pfs) [] ks = ([], ks)"
| "fork_ofile (pf # pfs) (nf # nfs) ks =
     (case pf of
        None \<Rightarrow> (let (r, ks') = fork_ofile pfs nfs ks in (nf # r, ks'))
      | Some f \<Rightarrow> (let (r, ks') = fork_ofile pfs nfs (filedup f ks) in (Some f # r, ks')))"

text \<open>
  Modelled from the spec: \<open>safestrcpy\<close> is defined in string.c, which is not among the
  sources; it copies at most \<open>n - 1\<close> characters and terminates the copy.
\<close>

definition safestrcpy :: "string \<Rightarrow> nat \<Rightarrow> string" where
  "safestrcpy s n = take (n - 1) s"

text \<open>\<open>fork\<close>, called by process \<open>p\<close>; the result is the return value and the new state.\<close>

definition fork :: "alloc_env \<Rightarrow> nat \<Rightarrow> kstate \<Rightarrow> int \<times> kstate" where
  "fork env p ks =
     (case allocproc env ks of
        (None, ks1) \<Rightarrow> (- 1, ks1)
      | (Some np, ks1) \<Rightarrow>
          let pp = procs ks1 ! p; n0 = procs ks1 ! np
          in if \<not> uvmcopy_ok env
             then (- 1, ks1\<lparr>procs := (procs ks1)[np := freeproc n0]\<rparr>)
             else
               let n1 = n0\<lparr>pagetable := Some (uvmcopy (the (pagetable pp)) (the (pagetable n0)) (sz pp))\<rparr>;
                   n2 = n1\<lparr>sz := sz pp\<rparr>;
                   n3 = n2\<lparr>trapframe := Some (the (trapframe pp))\<rparr>;
                   n4 = n3\<lparr>trapframe := Some ((the (trapframe n3))(A0 := 0))\<rparr>;
                   (fs, ks2) = fork_ofile (ofile pp) (ofile n4) ks1;
                   n5 = n4\<lparr>ofile := fs\<rparr>;
                   ks3 = (case cwd pp of None \<Rightarrow> ks2 | Some ip \<Rightarrow> idup ip ks2);
                   n6 = n5\<lparr>cwd := cwd pp\<rparr>;
                   n7 = n6\<lparr>pname := safestrcpy (pname pp) 16\<rparr>;
                   pid' = pid n7;
                   n8 = n7\<lparr>parent := Some p\<rparr>;
                   n9 = n8\<lparr>pstate := RUNNABLE\<rparr>
               in (pid', ks3\<lparr>procs := (procs ks3)[np := n9]\<rparr>))"

text \<open>
  Modelled from the spec: \<open>copyout\<close> is defined in vm.c, which is not among the sources.
  It copies bytes to a user address and fails, with nothing copied, on a bad user pointer.
  An \<open>int\<close> is stored as its four bytes, lowest first.
\<close>

definition int_bytes :: "int \<Rightarrow> uchar list" where
  "int_bytes x = map (\<lambda>k. ucast (drop_bit (8 * k) (word_of_int x :: uint))) [0..<4]"

definition copyout :: "pagetable \<Rightarrow> uint64 \<Rightarrow> uchar list \<Rightarrow> pagetable option" where
  "copyout pt dst bs =
     (if list_all (\<lambda>k. pt (dst + of_nat k) \<noteq> None) [0..<length bs]
      then Some (\<lambda>a. if unat (a - dst) < length bs then Some (bs ! unat (a - dst)) else pt a)
      else None)"

text \<open>
  \<open>wait\<close>.  One pass of the \<open>for (;;)\<close> loop scans the table and either returns or
  ends in \<open>sleep\<close>; \<open>killed(p)\<close> reads the field \<open>killed\<close>.  While the caller sleeps
  other processes run, so the next pass sees another state: \<open>wait\<close> takes the states the
  caller finds at its passes, and is \<open>None\<close> when it sleeps in all of them.
\<close>

datatype wait_result = W_return int kstate | W_sleep

fun wait_scan :: "nat \<Rightarrow> uint64 \<Rightarrow> kstate \<Rightarrow> nat list \<Rightarrow> bool \<Rightarrow> wait_result" where
  "wait_scan p addr ks [] havekids =
     (if \<not> havekids \<or> killed (procs ks ! p) \<noteq> 0 then W_return (- 1) ks else W_sleep)"
| "wait_scan p addr ks (i # rest) havekids =
     (let pp = procs ks ! i in
      if parent pp = Some p then
        (if pstate pp = ZOMBIE then
           (if addr \<noteq> 0 then
              (case copyout (the (pagetable (procs ks ! p))) addr (int_bytes (xstate pp)) of
                 None \<Rightarrow> W_return (- 1) ks
               | Some pt' \<Rightarrow>
                   W_return (pid pp)
                     (ks\<lparr>procs := (procs ks)[p := (procs ks ! p)\<lparr>pagetable := Some pt'\<rparr>,
                                               i := freeproc pp]\<rparr>))
            else W_return (pid pp) (ks\<lparr>procs := (procs ks)[i := freeproc pp]\<rparr>))
         else wait_scan p addr ks rest True)
      else wait_scan p addr ks rest havekids)"

definition wait_pass :: "nat \<Rightarrow> uint64 \<Rightarrow> kstate \<Rightarrow> wait_result" where
  "wait_pass p addr ks = wait_scan p addr ks [0..<NPROC] False"

fun wait :: "nat \<Rightarrow> uint64 \<Rightarrow> kstate list \<Rightarrow> (int \<times> kstate) option" where
  "wait p addr [] = None"
| "wait p addr (ks # later) =
     (case wait_pass p addr ks of W_return r ks' \<Rightarrow> Some (r, ks') | W_sleep \<Rightarrow> wait p addr later)"

text \<open>
  A zombie child of \<open>p\<close>, the first one in table order, and what \<open>wait\<close> does with it.
\<close>

definition zombie_child :: "kstate \<Rightarrow> nat \<Rightarrow> nat \<Rightarrow> bool" where
  "zombie_child ks p i = (parent (procs ks ! i) = Some p \<and> pstate (procs ks ! i) = ZOMBIE)"

definition first_zombie :: "kstate \<Rightarrow> nat \<Rightarrow> nat \<Rightarrow> bool" where
  "first_zombie ks p c =
     (c < NPROC \<and> zombie_child ks p c \<and> list_all (\<lambda>j. \<not> zombie_child ks p j) [0..<c])"

definition reap :: "nat \<Rightarrow> uint64 \<Rightarrow> kstate \<Rightarrow> nat \<Rightarrow> wait_result" where
  "reap p addr ks c =
     (if addr \<noteq> 0 then
        (case copyout (the (pagetable (procs ks ! p))) addr (int_bytes (xstate (procs ks ! c))) of
           None \<Rightarrow> W_return (- 1) ks
         | Some pt' \<Rightarrow>
             W_return (pid (procs ks ! c))
               (ks\<lparr>procs := (procs ks)[p := (procs ks ! p)\<lparr>pagetable := Some pt'\<rparr>,
                                         c := freeproc (procs ks ! c)]\<rparr>))
      else W_return (pid (procs ks ! c)) (ks\<lparr>procs := (procs ks)[c := freeproc (procs ks ! c)]\<rparr>))"

text \<open>
  Example states: the init process alone in the table; init with a zombie child; init,
  killed, with a runnable child.
\<close>

definition ex_tf :: trapframe where
  "ex_tf = (\<lambda>_. 0)(A0 := 7, Epc := 0x100, Sp := 0x1000)"

definition idle_proc :: proc where
  "idle_proc = \<lparr>pstate = UNUSED, chan = 0, killed = 0, xstate = 0, pid = 0, parent = None,
                sz = 0, pagetable = None, trapframe = None, ofile = replicate 16 None,
                cwd = None, pname = []\<rparr>"

definition init_proc :: proc where
  "init_proc = idle_proc\<lparr>pstate := RUNNING, pid := 1, sz := 4096,
                 pagetable := Some (\<lambda>a. if a < 4096 then Some 0x13 else None),
                 trapframe := Some ex_tf, ofile := Some 3 # replicate 15 None,
                 cwd := Some 1, pname := ''init''\<rparr>"

definition ex_ks :: kstate where
  "ex_ks = \<lparr>procs = init_proc # replicate 63 idle_proc, nextpid = 2,
            fref = (\<lambda>_. 0)(3 := 1), iref = (\<lambda>_. 0)(1 := 1)\<rparr>"

definition ok_env :: alloc_env where
  "ok_env = \<lparr>trapframe_ok = True, pagetable_ok = True, uvmcopy_ok = True\<rparr>"

definition zombie_ks :: kstate where
  "zombie_ks = ex_ks\<lparr>procs := init_proc
      # idle_proc\<lparr>pstate := ZOMBIE, pid := 2, parent := Some 0, xstate := 3\<rparr>
      # replicate 62 idle_proc\<rparr>"

definition killed_ks :: kstate where
  "killed_ks = ex_ks\<lparr>procs := init_proc\<lparr>killed := 1\<rparr>
      # idle_proc\<lparr>pstate := RUNNABLE, pid := 2, parent := Some 0\<rparr>
      # replicate 62 idle_proc\<rparr>"

section \<open>Write-ahead log: commit, crash and recovery (log.c)\<close>

text \<open>
  A block is \<open>BSIZE\<close> bytes, addressed by their offset.  The log header is read and
  written through a \<open>struct logheader\<close> laid over the start of a block: 4-byte integers,
  lowest byte first, the count at index 0 and \<open>block[i]\<close> at index \<open>i + 1\<close>.
\<close>

type_synonym block = "nat \<Rightarrow> uchar"

definition get32 :: "block \<Rightarrow> nat \<Rightarrow> uint" where
  "get32 b i = ucast (b (4 * i)) OR push_bit 8 (ucast (b (4 * i + 1)))
                 OR push_bit 16 (ucast (b (4 * i + 2))) OR push_bit 24 (ucast (b (4 * i + 3)))"

definition set32 :: "block \<Rightarrow> nat \<Rightarrow> uint \<Rightarrow> block" where
  "set32 b i v = b(4 * i := ucast v, 4 * i + 1 := ucast (drop_bit 8 v),
                   4 * i + 2 := ucast (drop_bit 16 v), 4 * i + 3 := ucast (drop_bit 24 v))"

text \<open>
  The machine: the disk, the buffer cache, the pin counts of the buffers, the in-memory
  log, and the power supply.  \<open>mcache m b\<close> is the data of the buffer that \<open>bread\<close>
  returns for block \<open>b\<close>: what was last put there, or what the disk holds.  \<open>mpower m\<close> is
  the number of block writes that still reach the disk before the power fails, \<open>\<infinity>\<close>
  when it does not fail.  What the kernel does after the power has failed is of no
  account: only the disk survives the crash.

  Modelled from the spec: \<open>bread\<close>, \<open>bwrite\<close> and \<open>bunpin\<close> are defined in bio.c, which
  is not among the sources.  \<open>bread\<close> returns the cached buffer of the block, \<open>bwrite\<close>
  writes the buffer to the disk synchronously, as one atomic block write, and \<open>bunpin\<close>
  takes back the bias of \<open>bpin\<close>.
\<close>

record machine =
  mdisk :: "uint \<Rightarrow> block"
  mcache :: "uint \<Rightarrow> block"
  mpins :: "uint \<Rightarrow> uint"
  mlog :: log
  mpower :: enat

definition bread :: "uint \<Rightarrow> machine \<Rightarrow> block" where
  "bread bno m = mcache m bno"

definition bwrite :: "uint \<Rightarrow> block \<Rightarrow> machine \<Rightarrow> machine" where
  "bwrite bno dat m =
     (if mpower m = 0 then m\<lparr>mcache := (mcache m)(bno := dat)\<rparr>
      else m\<lparr>mdisk := (mdisk m)(bno := dat), mcache := (mcache m)(bno := dat),
              mpower := mpower m - 1\<rparr>)"

definition bunpin :: "uint \<Rightarrow> machine \<Rightarrow> machine" where
  "bunpin bno m = m\<lparr>mpins := (mpins m)(bno := mpins m bno - 1)\<rparr>"

text \<open>The blocks of the on-disk log: \<open>log.start + tail + 1\<close>, and the header \<open>log.start\<close>.\<close>

definition logblk :: "machine \<Rightarrow> nat \<Rightarrow> uint" where
  "logblk m tail = word_of_int (start (mlog m) + int tail + 1)"

definition headblk :: "machine \<Rightarrow> uint" where
  "headblk m = word_of_int (start (mlog m))"

text \<open>
  \<open>install_trans\<close>, \<open>read_head\<close>, \<open>write_head\<close>, \<open>recover_from_log\<close>, \<open>write_log\<close> and
  \<open>commit\<close>.  The \<open>memmove\<close> into a buffer and the \<open>bwrite\<close> of that buffer are one step:
  \<open>bwrite\<close> takes the new data of the buffer.
\<close>

definition install_trans :: "int \<Rightarrow> machine \<Rightarrow> machine" where
  "install_trans recovering m =
     fold (\<lambda>tail m.
             let lbuf = bread (logblk m tail) m;
                 dno = lh_block (lh (mlog m)) ! tail;
                 m1 = bwrite dno lbuf m
             in if recovering = 0 then bunpin dno m1 else m1)
          [0..<nat (lh_n (lh (mlog m)))] m"

definition read_head :: "machine \<Rightarrow> machine" where
  "read_head m =
     (let buf = bread (headblk m) m;
          n' = sint (get32 buf 0);
          blocks' = fold (\<lambda>i bl. bl[i := get32 buf (i + 1)]) [0..<nat n'] (lh_block (lh (mlog m)))
      in m\<lparr>mlog := (mlog m)\<lparr>lh := \<lparr>lh_n = n', lh_block = blocks'\<rparr>\<rparr>\<rparr>)"

definition write_head :: "machine \<Rightarrow> machine" where
  "write_head m =
     (let buf = bread (headblk m) m;
          buf1 = set32 buf 0 (word_of_int (lh_n (lh (mlog m))));
          buf2 = fold (\<lambda>i b. set32 b (i + 1) (lh_block (lh (mlog m)) ! i))
                   [0..<nat (lh_n (lh (mlog m)))] buf1
      in bwrite (headblk m) buf2 m)"

definition set_lh_n :: "int \<Rightarrow> machine \<Rightarrow> machine" where
  "set_lh_n k m = m\<lparr>mlog := (mlog m)\<lparr>lh := (lh (mlog m))\<lparr>lh_n := k\<rparr>\<rparr>\<rparr>"

definition recover_from_log :: "machine \<Rightarrow> machine" where
  "recover_from_log m = write_head (set_lh_n 0 (install_trans 1 (read_head m)))"

definition write_log :: "machine \<Rightarrow> machine" where
  "write_log m =
     fold (\<lambda>tail m.
             let from = bread (lh_block (lh (mlog m)) ! tail) m
             in bwrite (logblk m tail) from m)
          [0..<nat (lh_n (lh (mlog m)))] m"

definition commit :: "machine \<Rightarrow> machine" where
  "commit m =
     (if 0 < lh_n (lh (mlog m))
      then write_head (set_lh_n 0 (install_trans 0 (write_head (write_log m))))
      else m)"

text \<open>
  After a crash the machine starts again from the disk: the cache is empty, so \<open>bread\<close>
  finds what the disk holds; \<open>initlog\<close> takes the place of the log from the superblock,
  and the log structure, static data, is zero.  \<open>initlog\<close> then calls \<open>recover_from_log\<close>.
\<close>

definition reboot :: "machine \<Rightarrow> machine" where
  "reboot m =
     \<lparr>mdisk = mdisk m, mcache = mdisk m, mpins = (\<lambda>_. 0),
      mlog = \<lparr>start = start (mlog m), lsize = lsize (mlog m), outstanding = 0, committing = 0,
              ldev = ldev (mlog m), lh = \<lparr>lh_n = 0, lh_block = replicate (nat LOGSIZE) 0\<rparr>\<rparr>,
      mpower = \<infinity>\<rparr>"

text \<open>
  The home block of slot \<open>i\<close> of the transaction, and the transactions \<open>commit\<close> is given:
  the header as \<open>log_write\<close> builds it (at most \<open>LOGSIZE\<close> and fewer than \<open>log.size\<close>
  distinct blocks), home blocks outside the on-disk log, whose block numbers fit 32 bits,
  and an on-disk header that is clear, as every commit and every recovery leave it.
\<close>

definition home :: "machine \<Rightarrow> nat \<Rightarrow> uint" where
  "home m i = lh_block (lh (mlog m)) ! i"

definition trans_wf :: "machine \<Rightarrow> bool" where
  "trans_wf m =
     (log_wf (mlog m) \<and> lh_n (lh (mlog m)) \<le> LOGSIZE \<and> lh_n (lh (mlog m)) < lsize (mlog m)
      \<and> 0 \<le> start (mlog m) \<and> start (mlog m) + lsize (mlog m) \<le> 2 ^ 32
      \<and> distinct (take (nat (lh_n (lh (mlog m)))) (lh_block (lh (mlog m))))
      \<and> list_all (\<lambda>b. uint b < start (mlog m) \<or> start (mlog m) + lsize (mlog m) \<le> uint b)
           (take (nat (lh_n (lh (mlog m)))) (lh_block (lh (mlog m))))
      \<and> sint (get32 (mdisk m (headblk m)) 0) = 0)"

text \<open>
  The loops of \<open>write_log\<close> and \<open>install_trans\<close> have one shape: block \<open>src t\<close> is copied
  to block \<open>dst t\<close> for each \<open>t\<close> in turn.  \<open>encode_head\<close> is the header block that
  \<open>write_head\<close> writes.
\<close>

definition copy_loop ::
  "(nat \<Rightarrow> uint) \<Rightarrow> (nat \<Rightarrow> uint) \<Rightarrow> (nat \<Rightarrow> machine \<Rightarrow> machine) \<Rightarrow> nat \<Rightarrow> machine \<Rightarrow> machine" where
  "copy_loop dst src post j m =
     fold (\<lambda>t m. post t (bwrite (dst t) (mcache m (src t)) m)) [0..<j] m"

definition keeps_store :: "(nat \<Rightarrow> machine \<Rightarrow> machine) \<Rightarrow> bool" where
  "keeps_store post =
     (\<forall>t m. mdisk (post t m) = mdisk m \<and> mcache (post t m) = mcache m
            \<and> mpower (post t m) = mpower m \<and> mlog (post t m) = mlog m)"

definition unpin_post :: "int \<Rightarrow> machine \<Rightarrow> nat \<Rightarrow> machine \<Rightarrow> machine" where
  "unpin_post recovering m t s = (if recovering = 0 then bunpin (home m t) s else s)"

definition encode_head :: "block \<Rightarrow> logheader \<Rightarrow> block" where
  "encode_head buf h =
     fold (\<lambda>i b. set32 b (i + 1) (lh_block h ! i)) [0..<nat (lh_n h)]
       (set32 buf 0 (word_of_int (lh_n h)))"

text \<open>
  The commit of the transaction with the power failing after \<open>k\<close> block writes, followed
  by the reboot and the recovery.
\<close>

definition after_crash :: "enat \<Rightarrow> machine \<Rightarrow> machine" where
  "after_crash k m = recover_from_log (reboot (commit (m\<lparr>mpower := k\<rparr>)))"

text \<open>
  The states the log goes through, one transaction after another.  \<open>area_ok\<close>: the log
  area of the superblock lies within the 32-bit block numbers.  \<open>log_on_disk_ok\<close>: the
  header on the disk holds a count that \<open>read_head\<close> can take, as the header of a disk made
  by mkfs does.  \<open>staged m m'\<close>: between two commits the kernel has gone from \<open>m\<close> to \<open>m'\<close>;
  it has written to the cache and, through \<open>log_write\<close>, to the in-memory header, which
  lists at most \<open>LOGSIZE\<close> and fewer than \<open>log.size\<close> distinct blocks outside the log
  area, and it has left the disk alone: \<open>bwrite\<close> is called by the log only.
\<close>

definition area_ok :: "machine \<Rightarrow> bool" where
  "area_ok m = (0 \<le> start (mlog m) \<and> start (mlog m) + lsize (mlog m) \<le> 2 ^ 32)"

definition log_on_disk_ok :: "machine \<Rightarrow> bool" where
  "log_on_disk_ok m = (0 \<le> sint (get32 (mdisk m (headblk m)) 0)
                        \<and> sint (get32 (mdisk m (headblk m)) 0) \<le> LOGSIZE)"

definition staged :: "machine \<Rightarrow> machine \<Rightarrow> bool" where
  "staged m m' =
     (mdisk m' = mdisk m \<and> start (mlog m') = start (mlog m) \<and> lsize (mlog m') = lsize (mlog m)
      \<and> log_wf (mlog m') \<and> lh_n (lh (mlog m')) \<le> LOGSIZE \<and> lh_n (lh (mlog m')) < lsize (mlog m')
      \<and> distinct (take (nat (lh_n (lh (mlog m')))) (lh_block (lh (mlog m'))))
      \<and> list_all (\<lambda>b. uint b < start (mlog m') \<or> start (mlog m') + lsize (mlog m') \<le> uint b)
           (take (nat (lh_n (lh (mlog m')))) (lh_block (lh (mlog m')))))"

text \<open>
  \<open>reach m\<close>: the machine is in state \<open>m\<close> with no transaction under way.  It is so after
  \<open>initlog\<close> at boot, after the commit of a staged transaction that the power outlasts, and
  after a commit that the power cuts off at any point, followed by the reboot and the
  recovery.
\<close>

inductive reach :: "machine \<Rightarrow> bool" where
  boot: "area_ok x \<Longrightarrow> log_on_disk_ok x \<Longrightarrow> reach (recover_from_log (reboot x))"
| committed: "reach m \<Longrightarrow> staged m m' \<Longrightarrow> reach (commit (m'\<lparr>mpower := \<infinity>\<rparr>))"
| crashed: "reach m \<Longrightarrow> staged m m' \<Longrightarrow> reach (after_crash k m')"

text \<open>Example: the log of blocks 33 and 34 above, with new data for both in the cache.\<close>

definition ex_machine :: machine where
  "ex_machine = \<lparr>mdisk = (\<lambda>_ _. 0), mcache = (\<lambda>_ _. 0)(33 := (\<lambda>_. 1), 34 := (\<lambda>_. 2)),
                 mpins = (\<lambda>_. 0)(33 := 1, 34 := 1), mlog = ex_log, mpower = \<infinity>\<rparr>"

section \<open>File system: inodes and their content (fs.c, fs.h, file.h)\<close>

text \<open>
  The layout constants of fs.h.  A block holds \<open>BSIZE / sizeof(uint)\<close> block numbers, so a
  file has at most \<open>MAXFILE = 12 + 256\<close> blocks; it holds \<open>IPB = BSIZE / sizeof(struct dinode)\<close>
  on-disk inodes of 64 bytes, and \<open>BPB\<close> bits of the free bitmap.
\<close>

type_synonym short = "16 word"

definition BSIZE :: nat where "BSIZE = 1024"
definition NDIRECT :: nat where "NDIRECT = 12"
definition NINDIRECT :: nat where "NINDIRECT = BSIZE div 4"
definition MAXFILE :: nat where "MAXFILE = NDIRECT + NINDIRECT"
definition DIRSIZ :: nat where "DIRSIZ = 14"
definition IPB :: nat where "IPB = BSIZE div 64"
definition BPB :: nat where "BPB = BSIZE * 8"

text \<open>
  Modelled from the spec: \<open>T_DIR\<close> is defined in stat.h, which is not among the sources;
  it is the type code of a directory, 1 in xv6.
\<close>

definition T_DIR :: short where "T_DIR = 1"

text \<open>
  \<open>struct inode\<close> (file.h) without its sleep lock, and \<open>struct dinode\<close> (fs.h).  The
  array \<open>addrs\<close> is a list, of length \<open>NDIRECT + 1\<close> in every inode of the system.
\<close>

record inode =
  idev :: uint
  inum :: uint
  i_ref :: int
  ivalid :: int
  itype :: short
  imajor :: short
  iminor :: short
  nlink :: short
  isize :: uint
  addrs :: "uint list"

record dinode =
  d_type :: short
  d_major :: short
  d_minor :: short
  d_nlink :: short
  d_size :: uint
  d_addrs :: "uint list"

text \<open>
  The file system of the one device, as the code sees it through the buffer cache (the
  buffer that \<open>bread\<close> returns holds what was last written to the block, and \<open>brelse\<close>
  changes no content).  Each kind of block is kept in the form in which the code reads
  it: \<open>fblocks b\<close> is the bytes of block \<open>b\<close> read as file data, \<open>findirect b\<close> the block
  read as an array of block numbers (the \<open>uint *a\<close> of \<open>bmap\<close>), \<open>fbitmap b\<close> the bit of
  block \<open>b\<close> in the free bitmap, and \<open>dinodes i\<close> the on-disk inode \<open>i\<close> in the inode
  blocks.  \<open>sb_size\<close>, \<open>sb_inodestart\<close> and \<open>sb_bmapstart\<close> are fields of the superblock,
  \<open>flog\<close> is the log and \<open>fpins b\<close> the reference count of the buffer of block \<open>b\<close>.
\<close>

record fsys =
  fblocks :: "uint \<Rightarrow> block"
  findirect :: "uint \<Rightarrow> nat \<Rightarrow> uint"
  fbitmap :: "nat \<Rightarrow> bool"
  dinodes :: "uint \<Rightarrow> dinode"
  sb_size :: uint
  sb_inodestart :: uint
  sb_bmapstart :: uint
  flog :: log
  fpins :: "uint \<Rightarrow> uint"

text \<open>
  \<open>log_write(bp)\<close> for the buffer of block \<open>bno\<close>: the call panics outside a transaction
  and when the log is full, and otherwise records the block in the header of the log and
  pins the buffer.
\<close>

definition log_block :: "uint \<Rightarrow> fsys \<Rightarrow> kfault + fsys" where
  "log_block bno fs =
     (case log_write (flog fs)
             \<lparr>bvalid = 1, disk = 0, bdev = 1, blockno = bno, refcnt = fpins fs bno,
              bdata = fblocks fs bno\<rparr> of
        Inl e \<Rightarrow> Inl e
      | Inr (l, b) \<Rightarrow> Inr (fs\<lparr>flog := l, fpins := (fpins fs)(bno := refcnt b)\<rparr>))"

text \<open>\<open>bzero\<close> clears a block and logs it.\<close>

definition bzero :: "uint \<Rightarrow> fsys \<Rightarrow> kfault + fsys" where
  "bzero bno fs =
     log_block bno (fs\<lparr>fblocks := (fblocks fs)(bno := (\<lambda>_. 0)),
                       findirect := (findirect fs)(bno := (\<lambda>_. 0))\<rparr>)"

text \<open>
  \<open>balloc\<close>: the two nested loops visit the bits of the blocks \<open>0, 1, \<dots>, sb.size - 1\<close> in this
  order; the first clear bit is set, its bitmap block \<open>BBLOCK(b, sb)\<close> logged, the block
  zeroed by \<open>bzero\<close> and its number returned.  Without a clear bit the result is 0.
\<close>

definition balloc :: "fsys \<Rightarrow> kfault + (uint \<times> fsys)" where
  "balloc fs =
     (case List.find (\<lambda>b. \<not> fbitmap fs b) [0..<unat (sb_size fs)] of
        None \<Rightarrow> Inr (0, fs)
      | Some b \<Rightarrow>
          (case log_block (of_nat (b div BPB) + sb_bmapstart fs)
                  (fs\<lparr>fbitmap := (fbitmap fs)(b := True)\<rparr>) of
             Inl e \<Rightarrow> Inl e
           | Inr fs1 \<Rightarrow>
               (case bzero (of_nat b) fs1 of
                  Inl e \<Rightarrow> Inl e
                | Inr fs2 \<Rightarrow> Inr (of_nat b, fs2))))"

text \<open>
  \<open>iupdate\<close> copies the in-memory inode to its on-disk inode, in block \<open>IBLOCK(inum, sb)\<close>,
  and logs that block.
\<close>

definition dinode_of :: "inode \<Rightarrow> dinode" where
  "dinode_of ip = \<lparr>d_type = itype ip, d_major = imajor ip, d_minor = iminor ip,
                   d_nlink = nlink ip, d_size = isize ip, d_addrs = addrs ip\<rparr>"

definition iupdate :: "inode \<Rightarrow> fsys \<Rightarrow> kfault + fsys" where
  "iupdate ip fs =
     log_block (inum ip div of_nat IPB + sb_inodestart fs)
       (fs\<lparr>dinodes := (dinodes fs)(inum ip := dinode_of ip)\<rparr>)"

text \<open>
  The second half of \<open>bmap\<close>, for a block listed in the indirect block \<open>ind\<close>: the entry
  \<open>a[k]\<close>, or a block allocated and entered there, with the indirect block logged.
\<close>

definition bmap_entry :: "uint \<Rightarrow> nat \<Rightarrow> fsys \<Rightarrow> kfault + (uint \<times> fsys)" where
  "bmap_entry ind k fs =
     (if findirect fs ind k = 0 then
        (case balloc fs of
           Inl e \<Rightarrow> Inl e
         | Inr (addr, fs1) \<Rightarrow>
             if addr \<noteq> 0 then
               (case log_block ind
                       (fs1\<lparr>findirect := (findirect fs1)(ind := (findirect fs1 ind)(k := addr))\<rparr>) of
                  Inl e \<Rightarrow> Inl e
                | Inr fs2 \<Rightarrow> Inr (addr, fs2))
             else Inr (addr, fs1))
      else Inr (findirect fs ind k, fs))"

text \<open>
  \<open>bmap\<close> returns the address of block \<open>bn\<close> of the file and allocates the block, and the
  indirect block, when the file has none there.  The result is the address (0 when the
  disk is full), the inode and the file system; a block number past \<open>MAXFILE\<close> is a panic,
  and so is an allocation that \<open>log_write\<close> refuses.
\<close>

definition bmap :: "inode \<Rightarrow> uint \<Rightarrow> fsys \<Rightarrow> kfault + (uint \<times> inode \<times> fsys)" where
  "bmap ip bn fs =
     (if unat bn < NDIRECT then
        (if addrs ip ! unat bn = 0 then
           (case balloc fs of
              Inl e \<Rightarrow> Inl e
            | Inr (addr, fs1) \<Rightarrow>
                if addr = 0 then Inr (0, ip, fs1)
                else Inr (addr, ip\<lparr>addrs := (addrs ip)[unat bn := addr]\<rparr>, fs1))
         else Inr (addrs ip ! unat bn, ip, fs))
      else
        (let bn1 = bn - of_nat NDIRECT in
         if unat bn1 < NINDIRECT then
           (if addrs ip ! NDIRECT = 0 then
              (case balloc fs of
                 Inl e \<Rightarrow> Inl e
               | Inr (ind, fs1) \<Rightarrow>
                   if ind = 0 then Inr (0, ip, fs1)
                   else
                     (case bmap_entry ind (unat bn1) fs1 of
                        Inl e \<Rightarrow> Inl e
                      | Inr (addr, fs2) \<Rightarrow>
                          Inr (addr, ip\<lparr>addrs := (addrs ip)[NDIRECT := ind]\<rparr>, fs2)))
            else
              (case bmap_entry (addrs ip ! NDIRECT) (unat bn1) fs of
                 Inl e \<Rightarrow> Inl e
               | Inr (addr, fs2) \<Rightarrow> Inr (addr, ip, fs2)))
         else Inl (Panic ''bmap: out of range'')))"

text \<open>
  The number of bytes that one round of the loops of \<open>readi\<close> and \<open>writei\<close> moves:
  \<open>m = min(n - tot, BSIZE - off % BSIZE)\<close>.  It is positive while \<open>tot < n\<close>, which is why
  the loops end.
\<close>

definition frag :: "uint \<Rightarrow> uint \<Rightarrow> uint \<Rightarrow> uint" where
  "frag n tot off = min (n - tot) (of_nat BSIZE - off mod of_nat BSIZE)"

lemma frag_pos:
  "tot < n \<Longrightarrow> 0 < unat (frag n tot off) \<and> unat (frag n tot off) \<le> unat (n - tot)"
proof -
  assume a: "tot < n"
  have b: "unat (off mod 1024) < 1024"
    by (simp add: unat_mod)
  then have "unat (1024 - off mod 1024) = 1024 - unat (off mod 1024)"
    by (simp add: unat_sub word_le_nat_alt)
  then have p: "0 < unat (1024 - off mod 1024 :: uint)" using b by simp
  have q: "0 < unat (n - tot)" using a by (simp add: unat_gt_0)
  show ?thesis using p q by (simp add: frag_def BSIZE_def min_def word_le_nat_alt)
qed

lemma frag_decr:
  assumes "tot < n"
  shows "unat (n - (tot + frag n tot off)) < unat (n - tot)"
proof -
  let ?m = "frag n tot off"
  from frag_pos[OF assms, of off] have p: "0 < unat ?m" "unat ?m \<le> unat (n - tot)" by simp_all
  have e: "n - (tot + ?m) = (n - tot) - ?m" by simp
  have "unat ((n - tot) - ?m) = unat (n - tot) - unat ?m"
    using p(2) by (simp add: unat_sub word_le_nat_alt)
  then show ?thesis unfolding e using p by simp
qed

text \<open>
  \<open>readi\<close>.  The destination is outside the model: \<open>dst_ok tot\<close> tells whether
  \<open>either_copyout\<close> succeeds in the round that starts at \<open>tot\<close> (it cannot fail for a kernel
  destination, \<open>user_dst = 0\<close>), and the bytes copied out are collected in \<open>out\<close>.  The
  loop returns \<open>tot\<close>, which is \<open>-1\<close> after a failed copy.  The result of \<open>readi\<close> is the
  return value, read as the \<open>int\<close> it is, the bytes, the inode and the file system.
\<close>

function readi_loop ::
  "int \<Rightarrow> (uint \<Rightarrow> bool) \<Rightarrow> uint \<Rightarrow> inode \<Rightarrow> fsys \<Rightarrow> uint \<Rightarrow> uint \<Rightarrow> uchar list
     \<Rightarrow> kfault + (uint \<times> uchar list \<times> inode \<times> fsys)" where
  "readi_loop user_dst dst_ok n ip fs tot off out =
     (if tot < n then
        (case bmap ip (off div of_nat BSIZE) fs of
           Inl e \<Rightarrow> Inl e
         | Inr (addr, ip1, fs1) \<Rightarrow>
             if addr = 0 then Inr (tot, out, ip1, fs1)
             else if user_dst \<noteq> 0 \<and> \<not> dst_ok tot then Inr (- 1, out, ip1, fs1)
             else readi_loop user_dst dst_ok n ip1 fs1 (tot + frag n tot off) (off + frag n tot off)
                    (out @ map (\<lambda>j. fblocks fs1 addr (unat (off mod of_nat BSIZE) + j))
                             [0..<unat (frag n tot off)]))
      else Inr (tot, out, ip, fs))"
  by pat_completeness auto
termination
  by (relation "measure (\<lambda>(user_dst, dst_ok, n, ip, fs, tot, off, out). unat (n - tot))")
     (auto simp: frag_decr)

declare readi_loop.simps [simp del]

definition readi ::
  "int \<Rightarrow> (uint \<Rightarrow> bool) \<Rightarrow> inode \<Rightarrow> fsys \<Rightarrow> uint \<Rightarrow> uint
     \<Rightarrow> kfault + (int \<times> uchar list \<times> inode \<times> fsys)" where
  "readi user_dst dst_ok ip fs off n =
     (if isize ip < off \<or> off + n < off then Inr (0, [], ip, fs)
      else
        (let n1 = (if isize ip < off + n then isize ip - off else n) in
         case readi_loop user_dst dst_ok n1 ip fs 0 off [] of
           Inl e \<Rightarrow> Inl e
         | Inr (tot, out, ip1, fs1) \<Rightarrow> Inr (sint tot, out, ip1, fs1)))"

text \<open>
  \<open>writei\<close>.  The source is the byte sequence \<open>src\<close>, of which the round that starts at
  \<open>tot\<close> copies the bytes \<open>tot, \<dots>, tot + m - 1\<close> into the block; \<open>src_ok tot\<close> tells
  whether \<open>either_copyin\<close> succeeds there.  Each block written is logged.  The loop
  returns \<open>tot\<close> and \<open>off\<close>.
\<close>

definition put_bytes :: "block \<Rightarrow> nat \<Rightarrow> nat \<Rightarrow> (nat \<Rightarrow> uchar) \<Rightarrow> block" where
  "put_bytes blk pos len src = (\<lambda>j. if pos \<le> j \<and> j < pos + len then src (j - pos) else blk j)"

function writei_loop ::
  "int \<Rightarrow> (uint \<Rightarrow> bool) \<Rightarrow> (nat \<Rightarrow> uchar) \<Rightarrow> uint \<Rightarrow> inode \<Rightarrow> fsys \<Rightarrow> uint \<Rightarrow> uint
     \<Rightarrow> kfault + (uint \<times> uint \<times> inode \<times> fsys)" where
  "writei_loop user_src src_ok src n ip fs tot off =
     (if tot < n then
        (case bmap ip (off div of_nat BSIZE) fs of
           Inl e \<Rightarrow> Inl e
         | Inr (addr, ip1, fs1) \<Rightarrow>
             if addr = 0 then Inr (tot, off, ip1, fs1)
             else if user_src \<noteq> 0 \<and> \<not> src_ok tot then Inr (tot, off, ip1, fs1)
             else
               (case log_block addr
                       (fs1\<lparr>fblocks := (fblocks fs1)(addr :=
                              put_bytes (fblocks fs1 addr) (unat (off mod of_nat BSIZE))
                                (unat (frag n tot off)) (\<lambda>j. src (unat tot + j)))\<rparr>) of
                  Inl e \<Rightarrow> Inl e
                | Inr fs2 \<Rightarrow>
                    writei_loop user_src src_ok src n ip1 fs2
                      (tot + frag n tot off) (off + frag n tot off)))
      else Inr (tot, off, ip, fs))"
  by pat_completeness auto
termination
  by (relation "measure (\<lambda>(user_src, src_ok, src, n, ip, fs, tot, off). unat (n - tot))")
     (auto simp: frag_decr)

declare writei_loop.simps [simp del]

definition writei ::
  "int \<Rightarrow> (uint \<Rightarrow> bool) \<Rightarrow> (nat \<Rightarrow> uchar) \<Rightarrow> inode \<Rightarrow> fsys \<Rightarrow> uint \<Rightarrow> uint
     \<Rightarrow> kfault + (int \<times> inode \<times> fsys)" where
  "writei user_src src_ok src ip fs off n =
     (if isize ip < off \<or> off + n < off then Inr (- 1, ip, fs)
      else if MAXFILE * BSIZE < unat (off + n) then Inr (- 1, ip, fs)
      else
        (case writei_loop user_src src_ok src n ip fs 0 off of
           Inl e \<Rightarrow> Inl e
         | Inr (tot, off1, ip1, fs1) \<Rightarrow>
             (let ip2 = (if isize ip1 < off1 then ip1\<lparr>isize := off1\<rparr> else ip1)
              in case iupdate ip2 fs1 of
                   Inl e \<Rightarrow> Inl e
                 | Inr fs2 \<Rightarrow> Inr (sint tot, ip2, fs2))))"

text \<open>
  The content of a file, for the statements about it.  \<open>blk_of ip fs bn\<close> is the address
  the inode holds for block \<open>bn\<close> of the file, 0 when it holds none; \<open>file_byte ip fs k\<close>
  is byte \<open>k\<close> of the file; \<open>file_mapped\<close>: the file has a block wherever it has content.
\<close>

definition blk_of :: "inode \<Rightarrow> fsys \<Rightarrow> nat \<Rightarrow> uint" where
  "blk_of ip fs bn =
     (if bn < NDIRECT then addrs ip ! bn
      else if addrs ip ! NDIRECT = 0 then 0
      else findirect fs (addrs ip ! NDIRECT) (bn - NDIRECT))"

definition file_byte :: "inode \<Rightarrow> fsys \<Rightarrow> nat \<Rightarrow> uchar" where
  "file_byte ip fs k = fblocks fs (blk_of ip fs (k div BSIZE)) (k mod BSIZE)"

definition file_mapped :: "inode \<Rightarrow> fsys \<Rightarrow> bool" where
  "file_mapped ip fs \<longleftrightarrow>
     (\<forall>bn<MAXFILE. bn * BSIZE < unat (isize ip) \<longrightarrow> blk_of ip fs bn \<noteq> 0)"

text \<open>
  Example: inode 7, a file of 10 bytes in block 50, on a disk of 200 blocks of which the
  first 100 are in use, with the inodes from block 32 on and a transaction open on an
  empty log; byte \<open>j\<close> of every block is \<open>j\<close>.  \<open>ex_written\<close> is the file system after four
  bytes 7 have been written at offset 10 of the file: block 50 and the inode block are in
  the log.
\<close>

definition ex_file :: inode where
  "ex_file = \<lparr>idev = 1, inum = 7, i_ref = 1, ivalid = 1, itype = 2, imajor = 0, iminor = 0,
              nlink = 1, isize = 10, addrs = 50 # replicate 12 0\<rparr>"

definition ex_fsys :: fsys where
  "ex_fsys = \<lparr>fblocks = (\<lambda>_ j. of_nat j), findirect = (\<lambda>_ _. 0), fbitmap = (\<lambda>b. b < 100),
             dinodes = (\<lambda>_. \<lparr>d_type = 0, d_major = 0, d_minor = 0, d_nlink = 0, d_size = 0,
                              d_addrs = replicate 13 0\<rparr>),
             sb_size = 200, sb_inodestart = 32, sb_bmapstart = 45,
             flog = \<lparr>start = 2, lsize = 30, outstanding = 1, committing = 0, ldev = 1,
                     lh = \<lparr>lh_n = 0, lh_block = replicate 30 0\<rparr>\<rparr>,
             fpins = (\<lambda>_. 0)\<rparr>"

definition ex_written :: fsys where
  "ex_written =
     ex_fsys\<lparr>fblocks := (fblocks ex_fsys)(50 := put_bytes (fblocks ex_fsys 50) 10 4 (\<lambda>j. 7)),
             dinodes := (dinodes ex_fsys)(7 := dinode_of (ex_file\<lparr>isize := 14\<rparr>)),
             flog := (flog ex_fsys)\<lparr>lh := \<lparr>lh_n = 2, lh_block = (replicate 30 0)[0 := 50, 1 := 32]\<rparr>\<rparr>,
             fpins := (\<lambda>_. 0)(50 := 1, 32 := 1)\<rparr>"

chapter \<open>Properties\<close>

section \<open>Properties of the page allocator\<close>

lemma kfree_panic_iff:
  "(kfree kend pa s = Inl (Panic ''kfree'')) =
     (unat pa mod 4096 \<noteq> 0 \<or> pa < kend \<or> PHYSTOP \<le> pa)"
  by (simp add: kfree_def PGSIZE_def Let_def)

lemma kfree_ok:
  assumes "kfree kend pa s \<noteq> Inl (Panic ''kfree'')"
  shows "kfree kend pa s =
           Inr \<lparr>mem = store64 (memset (mem s) pa 1 PGSIZE) pa (freelist s), freelist = pa\<rparr>"
  using assms by (simp add: kfree_def Let_def split: if_splits)

lemma memset_fills: "unat (a - dst) < n \<Longrightarrow> memset m dst c n a = c"
  by (simp add: memset_def)

lemma store64_keeps: "8 \<le> unat (a - p) \<Longrightarrow> store64 m p v a = m a"
  by (simp add: store64_def)

lemma kalloc_fill:
  "kalloc s = (r, s') \<Longrightarrow> r \<noteq> 0 \<Longrightarrow> unat (a - r) < 4096 \<Longrightarrow> mem s' a = 5"
  by (auto simp: kalloc_def Let_def memset_def PGSIZE_def)

text \<open>
  Claim C8 (allocator guard and poison).  \<open>kfree pa\<close> panics exactly when \<open>pa\<close> is not
  4096-byte aligned, lies below the end of the kernel image, or is at or above \<open>PHYSTOP\<close>.
  For every other \<open>pa\<close> it first fills the whole page with the byte 1 and only then links
  the page into the free list (the link occupies the first eight bytes, every other byte
  of the page still holds 1, and the page is the new list head).  Every page that \<open>kalloc\<close>
  returns is filled with the byte 5, a different pattern.
\<close>

theorem kfree_kalloc_guard_poison:
  "((kfree kend pa s = Inl (Panic ''kfree'')) =
      (unat pa mod 4096 \<noteq> 0 \<or> pa < kend \<or> PHYSTOP \<le> pa))
   \<and> (kfree kend pa s \<noteq> Inl (Panic ''kfree'') \<longrightarrow>
        (\<exists>s'. kfree kend pa s = Inr s'
           \<and> (\<forall>a. unat (a - pa) < 4096 \<longrightarrow> memset (mem s) pa 1 PGSIZE a = 1)
           \<and> mem s' = store64 (memset (mem s) pa 1 PGSIZE) pa (freelist s)
           \<and> (\<forall>a. 8 \<le> unat (a - pa) \<and> unat (a - pa) < 4096 \<longrightarrow> mem s' a = 1)
           \<and> freelist s' = pa))
   \<and> (\<forall>r s'. kalloc s = (r, s') \<and> r \<noteq> 0 \<longrightarrow>
        (\<forall>a. unat (a - r) < 4096 \<longrightarrow> mem s' a = 5))
   \<and> (5 :: uchar) \<noteq> 1"
proof (intro conjI)
  show "(kfree kend pa s = Inl (Panic ''kfree'')) =
          (unat pa mod 4096 \<noteq> 0 \<or> pa < kend \<or> PHYSTOP \<le> pa)"
    by (rule kfree_panic_iff)
  show "kfree kend pa s \<noteq> Inl (Panic ''kfree'') \<longrightarrow>
        (\<exists>s'. kfree kend pa s = Inr s'
           \<and> (\<forall>a. unat (a - pa) < 4096 \<longrightarrow> memset (mem s) pa 1 PGSIZE a = 1)
           \<and> mem s' = store64 (memset (mem s) pa 1 PGSIZE) pa (freelist s)
           \<and> (\<forall>a. 8 \<le> unat (a - pa) \<and> unat (a - pa) < 4096 \<longrightarrow> mem s' a = 1)
           \<and> freelist s' = pa)"
  proof
    assume ok: "kfree kend pa s \<noteq> Inl (Panic ''kfree'')"
    let ?s' = "\<lparr>mem = store64 (memset (mem s) pa 1 PGSIZE) pa (freelist s), freelist = pa\<rparr>"
    have "kfree kend pa s = Inr ?s'"
      using ok by (rule kfree_ok)
    moreover have "\<forall>a. unat (a - pa) < 4096 \<longrightarrow> memset (mem s) pa 1 PGSIZE a = 1"
      by (simp add: memset_fills PGSIZE_def)
    moreover have "\<forall>a. 8 \<le> unat (a - pa) \<and> unat (a - pa) < 4096 \<longrightarrow> mem ?s' a = 1"
      by (simp add: store64_keeps memset_fills PGSIZE_def)
    ultimately show "\<exists>s'. kfree kend pa s = Inr s'
           \<and> (\<forall>a. unat (a - pa) < 4096 \<longrightarrow> memset (mem s) pa 1 PGSIZE a = 1)
           \<and> mem s' = store64 (memset (mem s) pa 1 PGSIZE) pa (freelist s)
           \<and> (\<forall>a. 8 \<le> unat (a - pa) \<and> unat (a - pa) < 4096 \<longrightarrow> mem s' a = 1)
           \<and> freelist s' = pa"
      by simp
  qed
  show "\<forall>r s'. kalloc s = (r, s') \<and> r \<noteq> 0 \<longrightarrow>
        (\<forall>a. unat (a - r) < 4096 \<longrightarrow> mem s' a = 5)"
    using kalloc_fill by blast
  show "(5 :: uchar) \<noteq> 1"
    by simp
qed

text \<open>
  The theorem at a concrete allocator: the kernel image ends at 0x80020000, the page at
  0x80021000 is freed into an empty list and then allocated again.
\<close>

theorem kfree_kalloc_guard_poison_witness:
  "kfree 0x80020000 0x80021000 \<lparr>mem = (\<lambda>_. 0), freelist = 0\<rparr> \<noteq> Inl (Panic ''kfree'')
   \<and> (\<exists>s'. kfree 0x80020000 0x80021000 \<lparr>mem = (\<lambda>_. 0), freelist = 0\<rparr> = Inr s'
         \<and> mem s' 0x80021008 = 1 \<and> freelist s' = 0x80021000)
   \<and> fst (kalloc \<lparr>mem = (\<lambda>_. 1), freelist = 0x80021000\<rparr>) = 0x80021000
   \<and> mem (snd (kalloc \<lparr>mem = (\<lambda>_. 1), freelist = 0x80021000\<rparr>)) 0x80021fff = 5"
proof -
  let ?s = "\<lparr>mem = (\<lambda>_. 0 :: uchar), freelist = 0 :: uint64\<rparr>"
  let ?t = "\<lparr>mem = (\<lambda>_. 1 :: uchar), freelist = 0x80021000 :: uint64\<rparr>"
  note th = kfree_kalloc_guard_poison [of "0x80020000" "0x80021000" ?s]
  note tk = kfree_kalloc_guard_poison [of _ _ ?t]
  have np: "kfree 0x80020000 0x80021000 ?s \<noteq> Inl (Panic ''kfree'')"
    using th by (simp add: PHYSTOP_def KERNBASE_def)
  from th np obtain s' where s': "kfree 0x80020000 0x80021000 ?s = Inr s'"
    "\<forall>a. 8 \<le> unat (a - 0x80021000) \<and> unat (a - 0x80021000) < 4096 \<longrightarrow> mem s' a = 1"
    "freelist s' = 0x80021000"
    by blast
  have "mem s' 0x80021008 = 1"
    using s'(2) by simp
  moreover have "fst (kalloc ?t) = 0x80021000"
    by (simp add: kalloc_def Let_def)
  moreover have "mem (snd (kalloc ?t)) 0x80021fff = 5"
  proof -
    have "kalloc ?t = (fst (kalloc ?t), snd (kalloc ?t))" by simp
    moreover have "fst (kalloc ?t) \<noteq> 0" by (simp add: kalloc_def Let_def)
    moreover have "unat (0x80021fff - fst (kalloc ?t)) < 4096" by (simp add: kalloc_def Let_def)
    ultimately show ?thesis using tk by blast
  qed
  ultimately show ?thesis using np s'(1,3) by simp
qed

section \<open>Properties of log_write\<close>

lemma log_scan_range: "0 \<le> i \<Longrightarrow> i \<le> lh_n h \<Longrightarrow> i \<le> log_scan h bno i \<and> log_scan h bno i \<le> lh_n h"
proof (induction h bno i rule: log_scan.induct)
  case (1 h bno i)
  show ?case
  proof (cases "i < lh_n h \<and> lh_block h ! nat i \<noteq> bno")
    case True
    with 1 show ?thesis by (simp add: log_scan.simps[of h bno i])
  next
    case False
    with 1 show ?thesis by (auto simp add: log_scan.simps[of h bno i])
  qed
qed

lemma log_scan_hit: "0 \<le> i \<Longrightarrow> log_scan h bno i < lh_n h \<Longrightarrow> lh_block h ! nat (log_scan h bno i) = bno"
proof (induction h bno i rule: log_scan.induct)
  case (1 h bno i)
  show ?case
  proof (cases "i < lh_n h")
    case True
    show ?thesis
    proof (cases "lh_block h ! nat i = bno")
      case True
      with \<open>i < lh_n h\<close> show ?thesis by (subst log_scan.simps) (simp add: log_scan.simps[of h bno i])
    next
      case False
      with \<open>i < lh_n h\<close> 1 show ?thesis by (simp add: log_scan.simps[of h bno i])
    qed
  next
    case False
    with 1 show ?thesis by (simp add: log_scan.simps[of h bno i])
  qed
qed

lemma log_scan_miss:
  "0 \<le> i \<Longrightarrow> i \<le> lh_n h \<Longrightarrow> nat (lh_n h) \<le> length (lh_block h) \<Longrightarrow>
   (log_scan h bno i = lh_n h) = (bno \<notin> set (drop (nat i) (take (nat (lh_n h)) (lh_block h))))"
proof (induction h bno i rule: log_scan.induct)
  case (1 h bno i)
  show ?case
  proof (cases "i < lh_n h")
    case True
    have len: "nat i < length (take (nat (lh_n h)) (lh_block h))" using True 1 by simp
    have dr: "drop (nat i) (take (nat (lh_n h)) (lh_block h)) = lh_block h ! nat i # drop (nat (i + 1)) (take (nat (lh_n h)) (lh_block h))"
      using len 1(2) Cons_nth_drop_Suc[OF len, symmetric] by (simp add: nat_add_distrib)
    show ?thesis
    proof (cases "lh_block h ! nat i = bno")
      case True
      with \<open>i < lh_n h\<close> dr show ?thesis by (simp add: log_scan.simps[of h bno i])
    next
      case False
      have "(log_scan h bno (i + 1) = lh_n h) = (bno \<notin> set (drop (nat (i + 1)) (take (nat (lh_n h)) (lh_block h))))"
        using 1 True False by simp
      with False True dr show ?thesis by (simp add: log_scan.simps[of h bno i])
    qed
  next
    case False
    have e: "log_scan h bno i = i" using False by (simp add: log_scan.simps[of h bno i])
    have "i = lh_n h" using False 1 by simp
    then show ?thesis using e 1 by simp
  qed
qed

lemma log_write_absorb:
  assumes wf: "log_wf l" and g: "log_guard l" and inh: "in_header (lh l) (blockno b)"
  shows "log_write l b = Inr (l, b)"
proof -
  let ?i = "log_scan (lh l) (blockno b) 0"
  have n0: "0 \<le> lh_n (lh l)" and len: "nat (lh_n (lh l)) \<le> length (lh_block (lh l))"
    using wf g by (auto simp: log_wf_def log_guard_def)
  have ne: "?i \<noteq> lh_n (lh l)"
    using log_scan_miss[of 0 "lh l" "blockno b"] n0 len inh by (simp add: in_header_def)
  have rg: "0 \<le> ?i \<and> ?i \<le> lh_n (lh l)"
    using log_scan_range[of 0 "lh l" "blockno b"] n0 by simp
  have lt: "?i < lh_n (lh l)" using ne rg by simp
  have hit: "lh_block (lh l) ! nat ?i = blockno b"
    using log_scan_hit[of 0 "lh l" "blockno b"] lt by simp
  have same: "(lh_block (lh l))[nat ?i := blockno b] = lh_block (lh l)"
    using hit list_update_id[of "lh_block (lh l)" "nat ?i"] by simp
  show ?thesis
    using g ne same by (simp add: log_write_def log_guard_def Let_def)
qed

lemma log_write_append:
  assumes wf: "log_wf l" and g: "log_guard l" and ninh: "\<not> in_header (lh l) (blockno b)"
  shows "log_write l b =
           Inr (l\<lparr>lh := \<lparr>lh_n = lh_n (lh l) + 1,
                          lh_block = (lh_block (lh l))[nat (lh_n (lh l)) := blockno b]\<rparr>\<rparr>,
                b\<lparr>refcnt := refcnt b + 1\<rparr>)"
proof -
  have n0: "0 \<le> lh_n (lh l)" and len: "nat (lh_n (lh l)) \<le> length (lh_block (lh l))"
    using wf g by (auto simp: log_wf_def log_guard_def)
  have eq: "log_scan (lh l) (blockno b) 0 = lh_n (lh l)"
    using log_scan_miss[of 0 "lh l" "blockno b"] n0 len ninh by (simp add: in_header_def)
  show ?thesis
    using g eq by (simp add: log_write_def log_guard_def Let_def bpin_def)
qed

lemma in_header_after_append:
  assumes wf: "log_wf l" and g: "log_guard l"
  shows "in_header \<lparr>lh_n = lh_n (lh l) + 1, lh_block = (lh_block (lh l))[nat (lh_n (lh l)) := bno]\<rparr> bno"
proof -
  let ?k = "nat (lh_n (lh l))"
  let ?xs = "take (Suc ?k) ((lh_block (lh l))[?k := bno])"
  have n0: "0 \<le> lh_n (lh l)" and len: "?k < length (lh_block (lh l))"
    using wf g by (auto simp: log_wf_def log_guard_def)
  have "?k < length ?xs" using len by simp
  moreover have "?xs ! ?k = bno" using len by simp
  ultimately have "bno \<in> set ?xs" using nth_mem by metis
  moreover have "nat (lh_n (lh l) + 1) = Suc ?k" using n0 by simp
  ultimately show ?thesis by (simp add: in_header_def)
qed

lemma log_write_times_absorb:
  "log_wf l \<Longrightarrow> in_header (lh l) (blockno b) \<Longrightarrow> log_write_times k l b = Inr (l', b')
     \<Longrightarrow> l' = l \<and> b' = b"
proof (induction k)
  case 0
  then show ?case by simp
next
  case (Suc k)
  show ?case
  proof (cases "log_guard l")
    case True
    then have "log_write l b = Inr (l, b)" using Suc.prems log_write_absorb by blast
    with Suc show ?thesis by simp
  next
    case False
    then have "\<exists>e. log_write l b = Inl e"
      by (auto simp: log_write_def log_guard_def)
    with Suc.prems show ?thesis by auto
  qed
qed

lemma log_write_no_guard: "\<not> log_guard l \<Longrightarrow> \<exists>msg. log_write l b = Inl (Panic msg)"
  by (auto simp: log_write_def log_guard_def)

lemma log_write_times_once:
  assumes wf: "log_wf l" and r: "log_write_times (Suc k) l b = Inr (l', b')"
  shows "lh_n (lh l') = lh_n (lh l) + (if in_header (lh l) (blockno b) then 0 else 1)
         \<and> refcnt b' = refcnt b + (if in_header (lh l) (blockno b) then 0 else 1)"
proof (cases "in_header (lh l) (blockno b)")
  case True
  then show ?thesis using log_write_times_absorb[OF wf True r] by simp
next
  case False
  have g: "log_guard l"
  proof (rule ccontr)
    assume "\<not> log_guard l"
    then obtain msg where "log_write l b = Inl (Panic msg)" using log_write_no_guard by blast
    with r show False by simp
  qed
  let ?h = "\<lparr>lh_n = lh_n (lh l) + 1, lh_block = (lh_block (lh l))[nat (lh_n (lh l)) := blockno b]\<rparr>"
  let ?l1 = "l\<lparr>lh := ?h\<rparr>"
  let ?b1 = "b\<lparr>refcnt := refcnt b + 1\<rparr>"
  have w: "log_write l b = Inr (?l1, ?b1)" using log_write_append[OF wf g False] .
  then have rest: "log_write_times k ?l1 ?b1 = Inr (l', b')" using r by simp
  have wf1: "log_wf ?l1" using wf by (simp add: log_wf_def)
  have inh1: "in_header (lh ?l1) (blockno ?b1)"
    using in_header_after_append[OF wf g, of "blockno b"] by simp
  have "l' = ?l1 \<and> b' = ?b1" using log_write_times_absorb[OF wf1 inh1 rest] .
  then show ?thesis using False by simp
qed


text \<open>
  Claim C2 (log absorption), as amended.  In a well-formed log, when the guards of
  \<open>log_write\<close> pass (the header has room within \<open>LOGSIZE\<close> and within the on-disk log
  area, and a transaction is open): for a buffer whose block number is already in the
  header, \<open>log_write\<close> changes neither the log nor the buffer, so \<open>lh.n\<close> and the pin
  count stay as they are; for a block not yet in the header it stores the number in slot
  \<open>lh.n\<close>, adds one to \<open>lh.n\<close> and pins the buffer.  When a guard fails it panics and
  does neither.  Any number of writes of one block that all return consume one slot if
  the block was new and none if it was already recorded.
\<close>

theorem log_write_absorption:
  assumes wf: "log_wf l"
  shows "(log_guard l \<and> in_header (lh l) (blockno b) \<longrightarrow> log_write l b = Inr (l, b))
    \<and> (log_guard l \<and> \<not> in_header (lh l) (blockno b) \<longrightarrow>
         log_write l b =
           Inr (l\<lparr>lh := \<lparr>lh_n = lh_n (lh l) + 1,
                          lh_block = (lh_block (lh l))[nat (lh_n (lh l)) := blockno b]\<rparr>\<rparr>,
                b\<lparr>refcnt := refcnt b + 1\<rparr>))
    \<and> (\<not> log_guard l \<longrightarrow> (\<exists>msg. log_write l b = Inl (Panic msg)))
    \<and> (\<forall>k l' b'. log_write_times (Suc k) l b = Inr (l', b') \<longrightarrow>
          lh_n (lh l') = lh_n (lh l) + (if in_header (lh l) (blockno b) then 0 else 1)
          \<and> refcnt b' = refcnt b + (if in_header (lh l) (blockno b) then 0 else 1))"
  using log_write_absorb[OF wf] log_write_append[OF wf] log_write_no_guard
    log_write_times_once[OF wf]
  by blast


text \<open>The theorem at a log holding blocks 33 and 34: block 34 is absorbed, block 35 appended.\<close>

theorem log_write_absorption_witness:
  "log_wf ex_log \<and> log_guard ex_log
   \<and> in_header (lh ex_log) (blockno (ex_buf 34)) \<and> log_write ex_log (ex_buf 34) = Inr (ex_log, ex_buf 34)
   \<and> \<not> in_header (lh ex_log) (blockno (ex_buf 35))
   \<and> (\<exists>l' b'. log_write ex_log (ex_buf 35) = Inr (l', b') \<and> lh_n (lh l') = 3 \<and> refcnt b' = 2)"
proof -
  have wf: "log_wf ex_log" by (simp add: log_wf_def ex_log_def LOGSIZE_def MAXOPBLOCKS_def)
  have g: "log_guard ex_log" by (simp add: log_guard_def ex_log_def LOGSIZE_def MAXOPBLOCKS_def)
  have i1: "in_header (lh ex_log) (blockno (ex_buf 34))"
    by (simp add: in_header_def ex_log_def ex_buf_def)
  have i2: "\<not> in_header (lh ex_log) (blockno (ex_buf 35))"
    by (simp add: in_header_def ex_log_def ex_buf_def)
  note th1 = log_write_absorption[OF wf, of "ex_buf 34"]
  note th2 = log_write_absorption[OF wf, of "ex_buf 35"]
  have a: "log_write ex_log (ex_buf 34) = Inr (ex_log, ex_buf 34)" using th1 g i1 by blast
  have b: "log_write ex_log (ex_buf 35) =
           Inr (ex_log\<lparr>lh := \<lparr>lh_n = lh_n (lh ex_log) + 1,
                          lh_block = (lh_block (lh ex_log))[nat (lh_n (lh ex_log)) := blockno (ex_buf 35)]\<rparr>\<rparr>,
                (ex_buf 35)\<lparr>refcnt := refcnt (ex_buf 35) + 1\<rparr>)" using th2 g i2 by blast
  have "\<exists>l' b'. log_write ex_log (ex_buf 35) = Inr (l', b') \<and> lh_n (lh l') = 3 \<and> refcnt b' = 2"
    unfolding b by (simp add: ex_log_def ex_buf_def)
  then show ?thesis using wf g i1 i2 a by blast
qed


text \<open>
  Claim C2 as stated fails where a guard does: with 29 blocks recorded in a log area of
  30 blocks, \<open>log_write\<close> of a block that is not in the header panics instead of appending.
\<close>

theorem log_write_full_counterexample:
  "log_wf full_log \<and> \<not> in_header (lh full_log) (blockno (ex_buf 99))
   \<and> log_write full_log (ex_buf 99) = Inl (Panic ''too big a transaction'')"
  by (simp add: log_wf_def full_log_def in_header_def ex_buf_def log_write_def LOGSIZE_def
      MAXOPBLOCKS_def upt_rec)

section \<open>Properties of pipes\<close>

lemma pipewrite_loop_done: "\<not> i < n \<Longrightarrow> pipewrite_loop src kld n pip i = PW_return i pip"
  by (subst pipewrite_loop.simps) simp

lemma pipewrite_loop_closed:
  "i < n \<Longrightarrow> readopen pip = 0 \<or> kld \<Longrightarrow> pipewrite_loop src kld n pip i = PW_return (- 1) pip"
  by (subst pipewrite_loop.simps) simp

lemma pipewrite_loop_full:
  "i < n \<Longrightarrow> readopen pip \<noteq> 0 \<Longrightarrow> \<not> kld \<Longrightarrow> nwrite pip = nread pip + of_nat PIPESIZE \<Longrightarrow>
   pipewrite_loop src kld n pip i = PW_sleep i pip"
  by (subst pipewrite_loop.simps) simp

lemma pipewrite_loop_fault:
  "i < n \<Longrightarrow> readopen pip \<noteq> 0 \<Longrightarrow> \<not> kld \<Longrightarrow> nwrite pip \<noteq> nread pip + of_nat PIPESIZE \<Longrightarrow>
   src (nat i) = None \<Longrightarrow> pipewrite_loop src kld n pip i = PW_return i pip"
  by (subst pipewrite_loop.simps) simp

lemma pipewrite_loop_store:
  "i < n \<Longrightarrow> readopen pip \<noteq> 0 \<Longrightarrow> \<not> kld \<Longrightarrow> nwrite pip \<noteq> nread pip + of_nat PIPESIZE \<Longrightarrow>
   src (nat i) = Some ch \<Longrightarrow>
   pipewrite_loop src kld n pip i =
     pipewrite_loop src kld n
       (pip\<lparr>pdata := (pdata pip)(unat (nwrite pip) mod PIPESIZE := ch), nwrite := nwrite pip + 1\<rparr>)
       (i + 1)"
  by (subst pipewrite_loop.simps) simp

lemma piperead_loop_done: "\<not> i < n \<Longrightarrow> piperead_loop dst_ok n pip i out = PR_return i out pip"
  by (subst piperead_loop.simps) simp

lemma piperead_loop_empty:
  "i < n \<Longrightarrow> nread pip = nwrite pip \<Longrightarrow> piperead_loop dst_ok n pip i out = PR_return i out pip"
  by (subst piperead_loop.simps) simp

lemma piperead_loop_fault:
  "i < n \<Longrightarrow> nread pip \<noteq> nwrite pip \<Longrightarrow> \<not> dst_ok (nat i) \<Longrightarrow>
   piperead_loop dst_ok n pip i out = PR_return i out (pip\<lparr>nread := nread pip + 1\<rparr>)"
  by (subst piperead_loop.simps) (simp add: Let_def)

lemma piperead_loop_fetch:
  "i < n \<Longrightarrow> nread pip \<noteq> nwrite pip \<Longrightarrow> dst_ok (nat i) \<Longrightarrow>
   piperead_loop dst_ok n pip i out =
     piperead_loop dst_ok n (pip\<lparr>nread := nread pip + 1\<rparr>) (i + 1)
       (out @ [pdata pip (unat (nread pip) mod PIPESIZE)])"
  by (subst piperead_loop.simps) (simp add: Let_def)

lemma ring_step:
  fixes w r :: uint
  assumes "unat (w - r) \<le> 512" "w \<noteq> r + 512"
  shows "unat (w + 1 - r) = unat (w - r) + 1" "unat (w + 1 - r) \<le> 512"
proof -
  have ne: "unat (w - r) \<noteq> 512"
  proof
    assume h: "unat (w - r) = 512"
    have "w - r = of_nat (unat (w - r))" by simp
    then have "w - r = 512" unfolding h by simp
    then have "w = r + 512" by (simp add: diff_eq_eq add.commute)
    with assms show False by simp
  qed
  have lt: "unat (w - r) < 512" using assms ne by simp
  have e: "w + 1 - r = (w - r) + 1" by simp
  have u: "unat ((w - r) + 1) = unat (w - r) + 1"
    using lt by (simp add: unat_word_ariths)
  show "unat (w + 1 - r) = unat (w - r) + 1" unfolding e by (rule u)
  then show "unat (w + 1 - r) \<le> 512" using lt by simp
qed

lemma ring_step_read:
  fixes w r :: uint
  assumes "r \<noteq> w"
  shows "unat (w - (r + 1)) + 1 = unat (w - r)"
proof -
  have "w - r \<noteq> 0" using assms by simp
  then have nz: "unat (w - r) \<noteq> 0" by (simp add: unat_eq_zero)
  have e: "w - (r + 1) = (w - r) - 1" by simp
  have u: "unat ((w - r) - 1) = unat (w - r) - 1"
    using \<open>w - r \<noteq> 0\<close> by (simp add: unat_minus_one)
  show ?thesis unfolding e u using nz by simp
qed

lemma pipewrite_loop_ring: "ring_ok pip \<Longrightarrow> ring_ok (pw_pipe (pipewrite_loop src kld n pip i))"
proof (induction src kld n pip i rule: pipewrite_loop.induct)
  case (1 src kld n pip i)
  consider (fin) "\<not> i < n" | (closed) "i < n" "readopen pip = 0 \<or> kld"
    | (full) "i < n" "readopen pip \<noteq> 0" "\<not> kld" "nwrite pip = nread pip + of_nat PIPESIZE"
    | (fault) "i < n" "readopen pip \<noteq> 0" "\<not> kld" "nwrite pip \<noteq> nread pip + of_nat PIPESIZE"
        "src (nat i) = None"
    | (store) ch where "i < n" "readopen pip \<noteq> 0" "\<not> kld"
        "nwrite pip \<noteq> nread pip + of_nat PIPESIZE" "src (nat i) = Some ch"
    by (cases "src (nat i)") auto
  then show ?case
  proof cases
    case fin
    then show ?thesis using 1(2) by (simp add: pipewrite_loop_done)
  next
    case closed
    then show ?thesis using 1(2) by (simp add: pipewrite_loop_closed)
  next
    case full
    then show ?thesis using 1(2) by (simp add: pipewrite_loop_full)
  next
    case fault
    then show ?thesis using 1(2) by (simp add: pipewrite_loop_fault)
  next
    case store
    let ?pip = "pip\<lparr>pdata := (pdata pip)(unat (nwrite pip) mod PIPESIZE := ch), nwrite := nwrite pip + 1\<rparr>"
    have "ring_ok ?pip"
      using ring_step(2)[of "nwrite pip" "nread pip"] store 1(2) by (simp add: ring_ok_def PIPESIZE_def)
    then have "ring_ok (pw_pipe (pipewrite_loop src kld n ?pip (i + 1)))"
      using 1(1)[of ch] store by simp
    then show ?thesis using store by (simp add: pipewrite_loop_store)
  qed
qed

lemma piperead_loop_ring:
  "ring_ok pip \<Longrightarrow> ring_ok (pr_pipe (piperead_loop dst_ok n pip i out))"
proof (induction dst_ok n pip i out rule: piperead_loop.induct)
  case (1 dst_ok n pip i out)
  let ?pip = "pip\<lparr>nread := nread pip + 1\<rparr>"
  have step: "nread pip \<noteq> nwrite pip \<Longrightarrow> ring_ok ?pip"
    using ring_step_read[of "nread pip" "nwrite pip"] 1(2) by (simp add: ring_ok_def)
  consider (fin) "\<not> i < n" | (empty) "i < n" "nread pip = nwrite pip"
    | (fault) "i < n" "nread pip \<noteq> nwrite pip" "\<not> dst_ok (nat i)"
    | (fetch) "i < n" "nread pip \<noteq> nwrite pip" "dst_ok (nat i)"
    by auto
  then show ?case
  proof cases
    case fin
    then show ?thesis using 1(2) by (simp add: piperead_loop_done)
  next
    case empty
    then show ?thesis using 1(2) by (simp add: piperead_loop_empty)
  next
    case fault
    then show ?thesis using step by (simp add: piperead_loop_fault)
  next
    case fetch
    have "ring_ok (pr_pipe (piperead_loop dst_ok n ?pip (i + 1) (out @ [pdata pip (unat (nread pip) mod PIPESIZE)])))"
      using 1(1)[OF fetch(1) _ refl refl fetch(3)] fetch step by simp
    then show ?thesis using fetch by (simp add: piperead_loop_fetch)
  qed
qed

lemma unat_add_mod512:
  fixes r :: uint
  shows "unat (r + of_nat k) mod 512 = (unat r + k) mod 512"
proof -
  have "unat (r + of_nat k) = (unat r + k mod 2 ^ 32) mod 2 ^ 32"
    by (simp add: unat_word_ariths unat_of_nat)
  also have "\<dots> = (unat r + k) mod 2 ^ 32"
    by (simp add: mod_add_right_eq)
  finally have "unat (r + of_nat k) mod 512 = ((unat r + k) mod 2 ^ 32) mod 512" by simp
  also have "\<dots> = (unat r + k) mod 512"
    by (rule mod_mod_cancel) simp
  finally show ?thesis .
qed

lemma ring_idx_distinct:
  fixes r w :: uint
  assumes c: "unat (w - r) < 512" and k: "k < unat (w - r)"
  shows "unat (r + of_nat k) mod 512 \<noteq> unat w mod 512"
proof
  assume eq: "unat (r + of_nat k) mod 512 = unat w mod 512"
  let ?c = "unat (w - r)"
  have "w = r + of_nat ?c" by simp
  then have "unat w mod 512 = (unat r + ?c) mod 512"
    using unat_add_mod512[of r ?c] by simp
  with eq have "(unat r + k) mod 512 = (unat r + ?c) mod 512"
    by (simp add: unat_add_mod512)
  then have "(unat r + ?c) mod 512 = (unat r + k) mod 512" by simp
  then have "512 dvd (unat r + ?c) - (unat r + k)"
    using k by (simp add: mod_eq_dvd_iff_nat)
  then have "(512::nat) dvd ?c - k" by simp
  moreover have "0 < ?c - k" "?c - k < 512" using k c by simp_all
  ultimately show False using dvd_imp_le by fastforce
qed

lemma pipewrite_loop_frame:
  "nread (pw_pipe (pipewrite_loop src kld n pip i)) = nread pip
   \<and> readopen (pw_pipe (pipewrite_loop src kld n pip i)) = readopen pip
   \<and> writeopen (pw_pipe (pipewrite_loop src kld n pip i)) = writeopen pip"
proof (induction src kld n pip i rule: pipewrite_loop.induct)
  case (1 src kld n pip i)
  consider (fin) "\<not> i < n" | (closed) "i < n" "readopen pip = 0 \<or> kld"
    | (full) "i < n" "readopen pip \<noteq> 0" "\<not> kld" "nwrite pip = nread pip + of_nat PIPESIZE"
    | (fault) "i < n" "readopen pip \<noteq> 0" "\<not> kld" "nwrite pip \<noteq> nread pip + of_nat PIPESIZE"
        "src (nat i) = None"
    | (store) ch where "i < n" "readopen pip \<noteq> 0" "\<not> kld"
        "nwrite pip \<noteq> nread pip + of_nat PIPESIZE" "src (nat i) = Some ch"
    by (cases "src (nat i)") auto
  then show ?case
  proof cases
    case fin
    then show ?thesis by (simp add: pipewrite_loop_done)
  next
    case closed
    then show ?thesis by (simp add: pipewrite_loop_closed)
  next
    case full
    then show ?thesis by (simp add: pipewrite_loop_full)
  next
    case fault
    then show ?thesis by (simp add: pipewrite_loop_fault)
  next
    case store
    then show ?thesis using 1[of ch] by (simp add: pipewrite_loop_store)
  qed
qed

lemma pipewrite_loop_keeps_unread:
  "ring_ok pip \<Longrightarrow> k < unat (nwrite pip - nread pip) \<Longrightarrow>
   pdata (pw_pipe (pipewrite_loop src kld n pip i)) (unat (nread pip + of_nat k) mod 512)
     = pdata pip (unat (nread pip + of_nat k) mod 512)"
proof (induction src kld n pip i rule: pipewrite_loop.induct)
  case (1 src kld n pip i)
  consider (fin) "\<not> i < n" | (closed) "i < n" "readopen pip = 0 \<or> kld"
    | (full) "i < n" "readopen pip \<noteq> 0" "\<not> kld" "nwrite pip = nread pip + of_nat PIPESIZE"
    | (fault) "i < n" "readopen pip \<noteq> 0" "\<not> kld" "nwrite pip \<noteq> nread pip + of_nat PIPESIZE"
        "src (nat i) = None"
    | (store) ch where "i < n" "readopen pip \<noteq> 0" "\<not> kld"
        "nwrite pip \<noteq> nread pip + of_nat PIPESIZE" "src (nat i) = Some ch"
    by (cases "src (nat i)") auto
  then show ?case
  proof cases
    case fin
    then show ?thesis by (simp add: pipewrite_loop_done)
  next
    case closed
    then show ?thesis by (simp add: pipewrite_loop_closed)
  next
    case full
    then show ?thesis by (simp add: pipewrite_loop_full)
  next
    case fault
    then show ?thesis by (simp add: pipewrite_loop_fault)
  next
    case store
    let ?pip = "pip\<lparr>pdata := (pdata pip)(unat (nwrite pip) mod PIPESIZE := ch), nwrite := nwrite pip + 1\<rparr>"
    have ne: "nwrite pip \<noteq> nread pip + 512" using store by (simp add: PIPESIZE_def)
    have le: "unat (nwrite pip - nread pip) \<le> 512" using 1(2) by (simp add: ring_ok_def PIPESIZE_def)
    have cnt: "unat (nwrite pip + 1 - nread pip) = unat (nwrite pip - nread pip) + 1"
      using ring_step(1)[OF le ne] .
    have lt: "unat (nwrite pip - nread pip) < 512"
      using ring_step(2)[OF le ne] cnt by simp
    have r': "ring_ok ?pip" using ring_step(2)[OF le ne] by (simp add: ring_ok_def PIPESIZE_def)
    have k': "k < unat (nwrite ?pip - nread ?pip)" using cnt 1(3) by simp
    have ih: "pdata (pw_pipe (pipewrite_loop src kld n ?pip (i + 1))) (unat (nread pip + of_nat k) mod 512)
              = pdata ?pip (unat (nread pip + of_nat k) mod 512)"
      using 1(1)[OF store(1) _ _ store(5) r' k'] store by simp
    have "unat (nread pip + of_nat k) mod 512 \<noteq> unat (nwrite pip) mod 512"
      using ring_idx_distinct[OF lt 1(3)] .
    then have "pdata ?pip (unat (nread pip + of_nat k) mod 512) = pdata pip (unat (nread pip + of_nat k) mod 512)"
      by (simp add: PIPESIZE_def)
    with ih show ?thesis using store by (simp add: pipewrite_loop_store)
  qed
qed

lemma pipewrite_loop_when_full:
  "nwrite pip = nread pip + of_nat PIPESIZE \<Longrightarrow> pw_pipe (pipewrite_loop src kld n pip i) = pip"
  by (subst pipewrite_loop.simps) simp

lemma piperead_loop_when_empty:
  "nread pip = nwrite pip \<Longrightarrow> pr_pipe (piperead_loop dst_ok n pip i out) = pip"
  by (subst piperead_loop.simps) simp

lemma unat_suc_le:
  fixes x :: uint
  shows "unat (x + 1) \<le> unat x + 1"
proof -
  have "unat (x + 1) = (unat x + 1) mod 2 ^ 32"
    by (simp add: unat_word_ariths)
  also have "\<dots> \<le> unat x + 1"
    by (rule mod_less_eq_dividend)
  finally show ?thesis .
qed

lemma piperead_loop_frame:
  "nwrite (pr_pipe (piperead_loop dst_ok n pip i out)) = nwrite pip
   \<and> pdata (pr_pipe (piperead_loop dst_ok n pip i out)) = pdata pip
   \<and> unat (nread (pr_pipe (piperead_loop dst_ok n pip i out)) - nread pip)
       \<le> unat (nwrite pip - nread pip)"
proof (induction dst_ok n pip i out rule: piperead_loop.induct)
  case (1 dst_ok n pip i out)
  let ?pip = "pip\<lparr>nread := nread pip + 1\<rparr>"
  consider (fin) "\<not> i < n" | (empty) "i < n" "nread pip = nwrite pip"
    | (fault) "i < n" "nread pip \<noteq> nwrite pip" "\<not> dst_ok (nat i)"
    | (fetch) "i < n" "nread pip \<noteq> nwrite pip" "dst_ok (nat i)"
    by auto
  then show ?case
  proof cases
    case fin
    then show ?thesis by (simp add: piperead_loop_done)
  next
    case empty
    then show ?thesis by (simp add: piperead_loop_empty)
  next
    case fault
    have "0 < unat (nwrite pip - nread pip)"
      using fault(2) by (metis diff_eq_eq add.left_neutral unat_gt_0)
    then show ?thesis using fault by (simp add: piperead_loop_fault)
  next
    case fetch
    let ?res = "pr_pipe (piperead_loop dst_ok n ?pip (i + 1) (out @ [pdata pip (unat (nread pip) mod PIPESIZE)]))"
    have ih: "nwrite ?res = nwrite pip \<and> pdata ?res = pdata pip
              \<and> unat (nread ?res - (nread pip + 1)) \<le> unat (nwrite pip - (nread pip + 1))"
      using 1[OF fetch(1) _ refl refl fetch(3)] fetch by simp
    have c: "unat (nwrite pip - (nread pip + 1)) + 1 = unat (nwrite pip - nread pip)"
      using ring_step_read[OF fetch(2)] .
    have e: "nread ?res - nread pip = (nread ?res - (nread pip + 1)) + 1" by simp
    have "unat (nread ?res - nread pip) \<le> unat (nread ?res - (nread pip + 1)) + 1"
      by (subst e) (rule unat_suc_le)
    with ih c show ?thesis using fetch by (simp add: piperead_loop_fetch)
  qed
qed

lemma piperead_ring: "ring_ok pip \<Longrightarrow> ring_ok (pr_pipe (piperead dst_ok kld n pip))"
  by (simp add: piperead_def piperead_loop_ring)

lemma piperead_frame:
  "nwrite (pr_pipe (piperead dst_ok kld n pip)) = nwrite pip
   \<and> pdata (pr_pipe (piperead dst_ok kld n pip)) = pdata pip
   \<and> unat (nread (pr_pipe (piperead dst_ok kld n pip)) - nread pip) \<le> unat (nwrite pip - nread pip)"
  using piperead_loop_frame[of dst_ok n pip 0 "[]"] by (simp add: piperead_def)

lemma piperead_when_empty: "nread pip = nwrite pip \<Longrightarrow> pr_pipe (piperead dst_ok kld n pip) = pip"
  by (simp add: piperead_def piperead_loop_when_empty)


text \<open>
  Claim C10 (pipe ring invariant), as amended.  The counters are 32-bit and wrap around,
  so the invariant is on their difference: the number of unread bytes
  \<open>nwrite - nread\<close> (mod \<open>2^32\<close>) is at most \<open>PIPESIZE\<close>.  It holds for a new pipe and is
  kept by \<open>pipewrite\<close> (from the start and from every resumption after a sleep) and by
  \<open>piperead\<close>.  \<open>pipewrite\<close> leaves \<open>nread\<close> and every unread byte of the ring as they
  are, and changes nothing while the ring is full; \<open>piperead\<close> leaves \<open>nwrite\<close> as it is,
  takes no more bytes than are unread, and changes nothing while the ring is empty.
\<close>

theorem pipe_ring_invariant:
  "ring_ok (pipealloc_init d)
   \<and> (ring_ok pip \<longrightarrow> ring_ok (pw_pipe (pipewrite_loop src kld n pip i)))
   \<and> (ring_ok pip \<longrightarrow> ring_ok (pr_pipe (piperead dst_ok kld n pip)))
   \<and> (ring_ok pip \<longrightarrow>
        (\<forall>k. k < unat (nwrite pip - nread pip) \<longrightarrow>
           pdata (pw_pipe (pipewrite_loop src kld n pip i)) (unat (nread pip + of_nat k) mod 512)
             = pdata pip (unat (nread pip + of_nat k) mod 512)))
   \<and> nread (pw_pipe (pipewrite_loop src kld n pip i)) = nread pip
   \<and> nwrite (pr_pipe (piperead dst_ok kld n pip)) = nwrite pip
   \<and> unat (nread (pr_pipe (piperead dst_ok kld n pip)) - nread pip) \<le> unat (nwrite pip - nread pip)
   \<and> (nwrite pip = nread pip + 512 \<longrightarrow> pw_pipe (pipewrite_loop src kld n pip i) = pip)
   \<and> (nread pip = nwrite pip \<longrightarrow> pr_pipe (piperead dst_ok kld n pip) = pip)"
proof -
  have "ring_ok (pipealloc_init d)"
    by (simp add: ring_ok_def pipealloc_init_def)
  moreover have "nwrite pip = nread pip + 512 \<longrightarrow> pw_pipe (pipewrite_loop src kld n pip i) = pip"
    using pipewrite_loop_when_full[of pip src kld n i] by (simp add: PIPESIZE_def)
  ultimately show ?thesis
    using pipewrite_loop_ring[of pip src kld n i] piperead_ring[of pip dst_ok kld n]
      pipewrite_loop_keeps_unread[of pip _ src kld n i] pipewrite_loop_frame[of src kld n pip i]
      piperead_frame[of dst_ok kld n pip] piperead_when_empty[of pip dst_ok kld n]
    by blast
qed

lemma ab_pipe_eq:
  "ab_pipe = \<lparr>pdata = (\<lambda>_. 5)(0 := 0x61, 1 := 0x62), nread = 0, nwrite = 2,
              readopen = 1, writeopen = 1\<rparr>"
  by (simp add: ab_pipe_def pipewrite_def pipealloc_init_def pipewrite_loop_store
      pipewrite_loop_done PIPESIZE_def)


text \<open>The theorem at the pipe that holds the two unread bytes \<open>a\<close> and \<open>b\<close>.\<close>

theorem pipe_ring_invariant_witness:
  "ring_ok ab_pipe
   \<and> ring_ok (pw_pipe (pipewrite_loop (\<lambda>_. Some 0x63) False 1 ab_pipe 0))
   \<and> ring_ok (pr_pipe (piperead (\<lambda>_. True) False 1 ab_pipe))
   \<and> pdata (pw_pipe (pipewrite_loop (\<lambda>_. Some 0x63) False 1 ab_pipe 0)) 1 = 0x62"
proof -
  have r: "ring_ok ab_pipe" by (simp add: ab_pipe_eq ring_ok_def PIPESIZE_def)
  note th = pipe_ring_invariant[where pip = ab_pipe and src = "\<lambda>_. Some 0x63" and kld = False
      and n = 1 and i = 0 and dst_ok = "\<lambda>_. True"]
  have k: "(1::nat) < unat (nwrite ab_pipe - nread ab_pipe)" by (simp add: ab_pipe_eq)
  have "pdata (pw_pipe (pipewrite_loop (\<lambda>_. Some 0x63) False 1 ab_pipe 0))
          (unat (nread ab_pipe + of_nat 1) mod 512) = pdata ab_pipe (unat (nread ab_pipe + of_nat 1) mod 512)"
    using th r k by blast
  then have "pdata (pw_pipe (pipewrite_loop (\<lambda>_. Some 0x63) False 1 ab_pipe 0)) 1 = 0x62"
    by (simp add: ab_pipe_eq)
  then show ?thesis using th r by blast
qed


text \<open>
  Claim C10 as stated compares the counters themselves.  After \<open>2^32 - 1\<close> bytes have
  gone through a pipe, both counters are \<open>0xFFFFFFFF\<close>; writing one more byte wraps
  \<open>nwrite\<close> to 0, and \<open>nread \<le> nwrite\<close> no longer holds.
\<close>

theorem pipe_ring_wrap_counterexample:
  "nread wrap_pipe \<le> nwrite wrap_pipe
   \<and> unat (nwrite wrap_pipe) \<le> unat (nread wrap_pipe) + PIPESIZE
   \<and> pipewrite (\<lambda>_. Some 0x61) False 1 wrap_pipe
       = PW_return 1 (wrap_pipe\<lparr>pdata := (pdata wrap_pipe)(511 := 0x61), nwrite := 0\<rparr>)
   \<and> \<not> nread (pw_pipe (pipewrite (\<lambda>_. Some 0x61) False 1 wrap_pipe))
         \<le> nwrite (pw_pipe (pipewrite (\<lambda>_. Some 0x61) False 1 wrap_pipe))"
  by (simp add: wrap_pipe_def pipewrite_def pipewrite_loop_store pipewrite_loop_done PIPESIZE_def)


text \<open>
  Claim C5 (pipe FIFO and end-of-file).  \<open>piperead\<close> advances \<open>nread\<close> before it knows
  whether \<open>copyout\<close> succeeds (\<open>pipewrite\<close> stores and advances only after \<open>copyin\<close>
  has succeeded).  With \<open>a\<close> and \<open>b\<close> in the pipe, a read of two bytes whose first
  \<open>copyout\<close> fails returns 0, delivers nothing and has consumed \<open>a\<close>; the next read
  delivers \<open>b\<close>.  The bytes delivered are not the bytes accepted.
\<close>

theorem piperead_drops_byte:
  "piperead (\<lambda>_. False) False 2 ab_pipe = PR_return 0 [] (ab_pipe\<lparr>nread := 1\<rparr>)
   \<and> piperead (\<lambda>_. True) False 2 (ab_pipe\<lparr>nread := 1\<rparr>) = PR_return 1 [0x62] (ab_pipe\<lparr>nread := 2\<rparr>)"
  by (simp add: ab_pipe_eq piperead_def piperead_loop_fault piperead_loop_fetch
      piperead_loop_empty PIPESIZE_def)

text \<open>The end-of-file half of claim C5: a drained pipe whose write end is closed reads as 0.\<close>

lemma piperead_eof:
  "writeopen pip = 0 \<Longrightarrow> nread pip = nwrite pip \<Longrightarrow> piperead dst_ok kld n pip = PR_return 0 [] pip"
  by (cases "0 < n") (simp_all add: piperead_def piperead_loop_empty piperead_loop_done)

section \<open>Properties of fork\<close>

lemma find_unused_Some:
  "find_unused ps k = Some i \<Longrightarrow> k \<le> i \<and> i - k < length ps \<and> pstate (ps ! (i - k)) = UNUSED"
proof (induction ps arbitrary: k)
  case Nil
  then show ?case by simp
next
  case (Cons q ps)
  show ?case
  proof (cases "pstate q = UNUSED")
    case True
    with Cons.prems show ?thesis by simp
  next
    case False
    with Cons.prems have "find_unused ps (Suc k) = Some i" by simp
    from Cons.IH[OF this] have "Suc k \<le> i" "i - Suc k < length ps" "pstate (ps ! (i - Suc k)) = UNUSED"
      by simp_all
    moreover have "i - k = Suc (i - Suc k)" using \<open>Suc k \<le> i\<close> by simp
    ultimately show ?thesis by simp
  qed
qed

lemma fork_ofile_frame:
  "fork_ofile pfs nfs ks = (r, ks') \<Longrightarrow>
     procs ks' = procs ks \<and> nextpid ks' = nextpid ks \<and> iref ks' = iref ks"
proof (induction pfs nfs ks arbitrary: r ks' rule: fork_ofile.induct)
  case (1 nfs ks)
  then show ?case by simp
next
  case (2 pf pfs ks)
  then show ?case by simp
next
  case (3 pf pfs nf nfs ks)
  show ?case
  proof (cases pf)
    case None
    with 3 show ?thesis by (auto split: prod.splits)
  next
    case (Some f)
    with 3(2)[OF Some] 3(3) show ?thesis by (auto simp: filedup_def split: prod.splits)
  qed
qed

lemma fork_ofile_entries:
  "fork_ofile pfs nfs ks = (r, ks') \<Longrightarrow> length nfs = length pfs \<Longrightarrow>
     length r = length pfs
     \<and> (\<forall>i < length pfs. r ! i = (case pfs ! i of None \<Rightarrow> nfs ! i | Some f \<Rightarrow> Some f))
     \<and> (\<forall>f. fref ks' f = fref ks f + int (count_list pfs (Some f)))"
proof (induction pfs nfs ks arbitrary: r ks' rule: fork_ofile.induct)
  case (1 nfs ks)
  then show ?case by simp
next
  case (2 pf pfs ks)
  then show ?case by simp
next
  case (3 pf pfs nf nfs ks)
  show ?case
  proof (cases pf)
    case None
    obtain r0 k0 where e: "fork_ofile pfs nfs ks = (r0, k0)" by (cases "fork_ofile pfs nfs ks")
    with 3(3) None have r: "r = nf # r0" "ks' = k0" by simp_all
    from 3(1)[OF None e] 3(4) have ih: "length r0 = length pfs"
      "\<forall>i < length pfs. r0 ! i = (case pfs ! i of None \<Rightarrow> nfs ! i | Some f \<Rightarrow> Some f)"
      "\<forall>f. fref k0 f = fref ks f + int (count_list pfs (Some f))" by simp_all
    show ?thesis using ih r None by (auto simp: nth_Cons split: nat.splits option.splits)
  next
    case (Some f)
    obtain r0 k0 where e: "fork_ofile pfs nfs (filedup f ks) = (r0, k0)"
      by (cases "fork_ofile pfs nfs (filedup f ks)")
    with 3(3) Some have r: "r = Some f # r0" "ks' = k0" by simp_all
    from 3(2)[OF Some e] 3(4) have ih: "length r0 = length pfs"
      "\<forall>i < length pfs. r0 ! i = (case pfs ! i of None \<Rightarrow> nfs ! i | Some f \<Rightarrow> Some f)"
      "\<forall>g. fref k0 g = fref (filedup f ks) g + int (count_list pfs (Some g))" by simp_all
    show ?thesis using ih r Some by (auto simp: nth_Cons filedup_def split: nat.splits option.splits)
  qed
qed

lemma PGROUNDUP_ge: "n \<le> PGROUNDUP n"
proof -
  have "n + 4095 = ((n + 4095) div 4096) * 4096 + (n + 4095) mod 4096" by simp
  moreover have "(n + 4095) mod 4096 \<le> 4095" by simp
  ultimately show ?thesis unfolding PGROUNDUP_def by linarith
qed

lemma fork_fails_or:
  assumes f: "fork env p ks = (r, ks')" and pos: "0 < r"
  shows "\<exists>np. find_unused (procs ks) 0 = Some np \<and> trapframe_ok env \<and> pagetable_ok env
              \<and> uvmcopy_ok env"
proof (cases "find_unused (procs ks) 0")
  case None
  with f pos show ?thesis by (simp add: fork_def allocproc_def)
next
  case (Some np)
  show ?thesis
  proof (rule ccontr)
    assume "\<not> ?thesis"
    then have "\<not> trapframe_ok env \<or> \<not> pagetable_ok env \<or> \<not> uvmcopy_ok env" using Some by simp
    then have "r = - 1" using f Some
      by (auto simp: fork_def allocproc_def Let_def split: if_splits)
    with pos show False by simp
  qed
qed


text \<open>
  Claim C3 (fork).  Let process \<open>p\<close>, with trap frame \<open>tf\<close> and user address space \<open>pt\<close>,
  call \<open>fork\<close>, and let the call return \<open>r > 0\<close>.  Then a slot \<open>np\<close> that was unused holds
  the child: its pid is \<open>r\<close>, the value the parent gets; its trap frame is the parent's
  with \<open>a0\<close> set to 0; its size is the parent's and its address space holds the parent's
  bytes at every address below that size; every descriptor the parent has open is open in
  the child on the same file, whose reference count has gone up by one for each such
  descriptor; its parent is \<open>p\<close> and it is runnable.  The parent's slot is unchanged.
\<close>

theorem fork_success:
  assumes p: "p < length (procs ks)" and run: "pstate (procs ks ! p) \<noteq> UNUSED"
    and tf: "trapframe (procs ks ! p) = Some tf" and pt: "pagetable (procs ks ! p) = Some pt"
    and len: "list_all (\<lambda>q. length (ofile q) = NOFILE) (procs ks)"
    and f: "fork env p ks = (r, ks')" and pos: "0 < r"
  shows "\<exists>np. np < length (procs ks) \<and> np \<noteq> p \<and> pstate (procs ks ! np) = UNUSED
     \<and> r = pid (procs ks' ! np) \<and> r = nextpid ks
     \<and> trapframe (procs ks' ! np) = Some (tf(A0 := 0))
     \<and> sz (procs ks' ! np) = sz (procs ks ! p)
     \<and> (\<exists>cpt. pagetable (procs ks' ! np) = Some cpt
            \<and> (\<forall>a. a < sz (procs ks ! p) \<longrightarrow> cpt a = pt a))
     \<and> (\<forall>i f. i < NOFILE \<and> ofile (procs ks ! p) ! i = Some f
            \<longrightarrow> ofile (procs ks' ! np) ! i = Some f)
     \<and> (\<forall>f. fref ks' f = fref ks f + int (count_list (ofile (procs ks ! p)) (Some f)))
     \<and> parent (procs ks' ! np) = Some p \<and> pstate (procs ks' ! np) = RUNNABLE
     \<and> procs ks' ! p = procs ks ! p"
proof -
  from fork_fails_or[OF f pos] obtain np where fu: "find_unused (procs ks) 0 = Some np"
    and ok: "trapframe_ok env" "pagetable_ok env" "uvmcopy_ok env" by blast
  from find_unused_Some[OF fu] have np: "np < length (procs ks)" "pstate (procs ks ! np) = UNUSED"
    by simp_all
  have ne: "np \<noteq> p" using np run by auto
  let ?n0 = "(procs ks ! np)\<lparr>pid := nextpid ks, pstate := USED,
               trapframe := Some (\<lambda>_. 0x0505050505050505), pagetable := Some (\<lambda>_. None)\<rparr>"
  let ?ks1 = "ks\<lparr>nextpid := nextpid ks + 1, procs := (procs ks)[np := ?n0]\<rparr>"
  have ap: "allocproc env ks = (Some np, ?ks1)"
    using fu ok by (simp add: allocproc_def Let_def)
  have pp: "procs ?ks1 ! p = procs ks ! p" using ne by simp
  have n0: "procs ?ks1 ! np = ?n0" using np by simp
  have lens: "length (ofile ?n0) = length (ofile (procs ks ! p))"
    using len p np by (simp add: list_all_length)
  obtain fs ks2 where fo: "fork_ofile (ofile (procs ks ! p)) (ofile ?n0) ?ks1 = (fs, ks2)"
    by (cases "fork_ofile (ofile (procs ks ! p)) (ofile ?n0) ?ks1")
  from fork_ofile_frame[OF fo] have fr: "procs ks2 = procs ?ks1" by simp
  from fork_ofile_entries[OF fo lens] have ent: "length fs = length (ofile (procs ks ! p))"
    "\<forall>i < length (ofile (procs ks ! p)). fs ! i =
        (case ofile (procs ks ! p) ! i of None \<Rightarrow> ofile ?n0 ! i | Some f \<Rightarrow> Some f)"
    "\<forall>f. fref ks2 f = fref ?ks1 f + int (count_list (ofile (procs ks ! p)) (Some f))"
    by simp_all
  let ?ks3 = "case cwd (procs ks ! p) of None \<Rightarrow> ks2 | Some ip \<Rightarrow> idup ip ks2"
  have k3: "procs ?ks3 = procs ?ks1" "fref ?ks3 = fref ks2"
    using fr by (auto simp: idup_def split: option.splits)
  let ?n9 = "?n0\<lparr>pagetable := Some (uvmcopy pt (\<lambda>_. None) (sz (procs ks ! p))),
                 sz := sz (procs ks ! p), trapframe := Some (tf(A0 := 0)), ofile := fs,
                 cwd := cwd (procs ks ! p), pname := safestrcpy (pname (procs ks ! p)) 16,
                 parent := Some p, pstate := RUNNABLE\<rparr>"
  have res: "fork env p ks = (nextpid ks, ?ks3\<lparr>procs := (procs ?ks3)[np := ?n9]\<rparr>)"
    unfolding fork_def ap using ok tf pt fo pp n0 by (simp add: Let_def)
  have "(r, ks') = (nextpid ks, ?ks3\<lparr>procs := (procs ?ks3)[np := ?n9]\<rparr>)"
    unfolding f[symmetric] by (rule res)
  then have r: "r = nextpid ks" and ks': "ks' = ?ks3\<lparr>procs := (procs ?ks3)[np := ?n9]\<rparr>"
    by blast+
  have c: "procs ks' ! np = ?n9" unfolding ks' using np k3 by simp
  have par: "procs ks' ! p = procs ks ! p" unfolding ks' using ne k3 by simp
  have lenp: "length (ofile (procs ks ! p)) = NOFILE"
    using len p by (simp add: list_all_length)
  have deep: "\<forall>a. a < sz (procs ks ! p) \<longrightarrow> uvmcopy pt (\<lambda>_. None) (sz (procs ks ! p)) a = pt a"
  proof (intro allI impI)
    fix a assume "a < sz (procs ks ! p)"
    then have "unat a < unat (sz (procs ks ! p))" by (simp add: word_less_nat_alt)
    then have "unat a < PGROUNDUP (unat (sz (procs ks ! p)))"
      using PGROUNDUP_ge[of "unat (sz (procs ks ! p))"] by simp
    then show "uvmcopy pt (\<lambda>_. None) (sz (procs ks ! p)) a = pt a" by (simp add: uvmcopy_def)
  qed
  have files: "\<forall>i f. i < NOFILE \<and> ofile (procs ks ! p) ! i = Some f \<longrightarrow> ofile ?n9 ! i = Some f"
    using ent(2) lenp by simp
  have refs: "\<forall>f. fref ks' f = fref ks f + int (count_list (ofile (procs ks ! p)) (Some f))"
    unfolding ks' using ent(3) k3 by simp
  show ?thesis
    apply (rule exI[of _ np])
    unfolding c
    using np ne r par deep files refs by simp
qed

lemma fork_ok_fst:
  "find_unused (procs ks) 0 = Some np \<Longrightarrow> trapframe_ok env \<Longrightarrow> pagetable_ok env \<Longrightarrow>
   uvmcopy_ok env \<Longrightarrow> np < length (procs ks) \<Longrightarrow> fst (fork env p ks) = nextpid ks"
  by (simp add: fork_def allocproc_def Let_def case_prod_beta)


text \<open>The theorem at the init process, which has descriptor 0 open on file 3.\<close>

theorem fork_success_witness:
  "fst (fork ok_env 0 ex_ks) = 2
   \<and> (\<exists>np. np \<noteq> 0 \<and> pid (procs (snd (fork ok_env 0 ex_ks)) ! np) = 2
        \<and> trapframe (procs (snd (fork ok_env 0 ex_ks)) ! np) = Some (ex_tf(A0 := 0))
        \<and> ofile (procs (snd (fork ok_env 0 ex_ks)) ! np) ! 0 = Some 3
        \<and> parent (procs (snd (fork ok_env 0 ex_ks)) ! np) = Some 0)
   \<and> fref (snd (fork ok_env 0 ex_ks)) 3 = 2"
proof -
  have fu: "find_unused (procs ex_ks) 0 = Some 1"
    by (simp add: ex_ks_def init_proc_def idle_proc_def numeral_eq_Suc)
  have r: "fst (fork ok_env 0 ex_ks) = 2"
    using fork_ok_fst[OF fu, of ok_env 0] by (simp add: ok_env_def ex_ks_def)
  have f: "fork ok_env 0 ex_ks = (2, snd (fork ok_env 0 ex_ks))"
    using r by (metis prod.collapse)
  have h1: "0 < length (procs ex_ks)" by (simp add: ex_ks_def)
  have h2: "pstate (procs ex_ks ! 0) \<noteq> UNUSED" by (simp add: ex_ks_def init_proc_def)
  have h3: "trapframe (procs ex_ks ! 0) = Some ex_tf" by (simp add: ex_ks_def init_proc_def)
  have h4: "pagetable (procs ex_ks ! 0) = Some (\<lambda>a. if a < 4096 then Some 0x13 else None)"
    by (simp add: ex_ks_def init_proc_def)
  have h5: "list_all (\<lambda>q. length (ofile q) = NOFILE) (procs ex_ks)"
    by (simp add: ex_ks_def init_proc_def idle_proc_def NOFILE_def list_all_iff)
  have h6: "(0::int) < 2" by simp
  from fork_success[OF h1 h2 h3 h4 h5 f h6] obtain np where np: "np \<noteq> 0"
    "2 = pid (procs (snd (fork ok_env 0 ex_ks)) ! np)"
    "trapframe (procs (snd (fork ok_env 0 ex_ks)) ! np) = Some (ex_tf(A0 := 0))"
    "\<forall>i f. i < NOFILE \<and> ofile (procs ex_ks ! 0) ! i = Some f
        \<longrightarrow> ofile (procs (snd (fork ok_env 0 ex_ks)) ! np) ! i = Some f"
    "\<forall>f. fref (snd (fork ok_env 0 ex_ks)) f
        = fref ex_ks f + int (count_list (ofile (procs ex_ks ! 0)) (Some f))"
    "parent (procs (snd (fork ok_env 0 ex_ks)) ! np) = Some 0"
    by blast
  have o: "ofile (procs (snd (fork ok_env 0 ex_ks)) ! np) ! 0 = Some 3"
    using np(4) by (simp add: ex_ks_def init_proc_def NOFILE_def)
  have c: "fref (snd (fork ok_env 0 ex_ks)) 3 = 2"
    using np(5) by (simp add: ex_ks_def init_proc_def count_list_0_iff)
  show ?thesis using r np(1,2,3,6) o c by auto
qed


section \<open>Properties of wait\<close>

lemma wait_scan_no_zombie:
  "list_all (\<lambda>j. \<not> zombie_child ks p j) js \<Longrightarrow>
   wait_scan p addr ks js hk =
     wait_scan p addr ks [] (hk \<or> list_ex (\<lambda>j. parent (procs ks ! j) = Some p) js)"
  by (induction js arbitrary: hk) (auto simp: zombie_child_def Let_def)

lemma wait_scan_zombie:
  "list_all (\<lambda>j. \<not> zombie_child ks p j) pre \<Longrightarrow> zombie_child ks p c \<Longrightarrow>
   wait_scan p addr ks (pre @ c # post) hk = reap p addr ks c"
proof (induction pre arbitrary: hk)
  case Nil
  then show ?case by (simp add: zombie_child_def reap_def Let_def)
next
  case (Cons j pre)
  then show ?case by (auto simp: zombie_child_def Let_def)
qed

lemma wait_pass_no_zombie:
  assumes "list_all (\<lambda>j. \<not> zombie_child ks p j) [0..<NPROC]"
  shows "wait_pass p addr ks =
           (if \<not> list_ex (\<lambda>j. parent (procs ks ! j) = Some p) [0..<NPROC]
               \<or> killed (procs ks ! p) \<noteq> 0
            then W_return (- 1) ks else W_sleep)"
  using wait_scan_no_zombie[OF assms, of addr False] by (simp add: wait_pass_def)

lemma wait_pass_zombie:
  assumes "first_zombie ks p c"
  shows "wait_pass p addr ks = reap p addr ks c"
proof -
  have c: "c < NPROC" "zombie_child ks p c" "list_all (\<lambda>j. \<not> zombie_child ks p j) [0..<c]"
    using assms by (simp_all add: first_zombie_def)
  have "[0..<NPROC] = [0..<c] @ [c..<c + (NPROC - c)]"
    using c(1) upt_add_eq_append[of 0 c "NPROC - c"] by simp
  moreover have "[c..<NPROC] = c # [Suc c..<NPROC]"
    using c(1) by (rule upt_conv_Cons)
  ultimately have "[0..<NPROC] = [0..<c] @ c # [Suc c..<NPROC]"
    using c(1) by simp
  then show ?thesis
    using wait_scan_zombie[OF c(3) c(2), of addr "[Suc c..<NPROC]" False]
    by (simp add: wait_pass_def)
qed

lemma unat_of_nat_small: "k < 4 \<Longrightarrow> unat (of_nat k :: uint64) = k"
proof -
  assume "k < 4"
  then consider "k = 0" | "k = 1" | "k = 2" | "k = 3" by linarith
  then show ?thesis by cases simp_all
qed

lemma copyout_reads_back:
  assumes "copyout pt addr bs = Some pt'" and "length bs = 4"
  shows "map (\<lambda>k. pt' (addr + of_nat k)) [0..<4] = map Some bs"
proof -
  have pt': "pt' = (\<lambda>a. if unat (a - addr) < length bs then Some (bs ! unat (a - addr)) else pt a)"
    using assms(1) by (auto simp: copyout_def split: if_splits)
  have "\<And>k. k < 4 \<Longrightarrow> pt' (addr + of_nat k) = Some (bs ! k)"
    using assms(2) by (simp add: pt' unat_of_nat_small)
  then show ?thesis using assms(2) by (simp add: list_eq_iff_nth_eq)
qed


text \<open>
  Claim C4 (wait), as amended.  One pass of \<open>wait\<close> in state \<open>ks\<close>: with no child in
  the table it returns -1; with children, none of them a zombie, it returns -1 if the
  caller has been killed and sleeps otherwise; with \<open>c\<close> the first zombie child, it returns
  the pid of \<open>c\<close> and frees the slot of \<open>c\<close> when \<open>addr\<close> is 0 or \<open>copyout\<close> succeeds (the
  four bytes at \<open>addr\<close> then are the exit status of \<open>c\<close>), and returns -1 when \<open>copyout\<close>
  fails.  Every return of -1 leaves the state as it was.  \<open>wait\<close> returns what its first
  pass that does not sleep returns.
\<close>

theorem wait_returns:
  "(\<not> list_ex (\<lambda>j. parent (procs ks ! j) = Some p) [0..<NPROC]
      \<longrightarrow> wait_pass p addr ks = W_return (- 1) ks)
   \<and> (list_ex (\<lambda>j. parent (procs ks ! j) = Some p) [0..<NPROC]
        \<and> list_all (\<lambda>j. \<not> zombie_child ks p j) [0..<NPROC]
      \<longrightarrow> wait_pass p addr ks = (if killed (procs ks ! p) \<noteq> 0 then W_return (- 1) ks else W_sleep))
   \<and> (first_zombie ks p c \<and> addr = 0
      \<longrightarrow> wait_pass p addr ks =
            W_return (pid (procs ks ! c)) (ks\<lparr>procs := (procs ks)[c := freeproc (procs ks ! c)]\<rparr>))
   \<and> (first_zombie ks p c \<and> addr \<noteq> 0
        \<and> copyout (the (pagetable (procs ks ! p))) addr (int_bytes (xstate (procs ks ! c))) = None
      \<longrightarrow> wait_pass p addr ks = W_return (- 1) ks)
   \<and> (\<forall>pt'. first_zombie ks p c \<and> addr \<noteq> 0
        \<and> copyout (the (pagetable (procs ks ! p))) addr (int_bytes (xstate (procs ks ! c))) = Some pt'
      \<longrightarrow> wait_pass p addr ks =
            W_return (pid (procs ks ! c))
              (ks\<lparr>procs := (procs ks)[p := (procs ks ! p)\<lparr>pagetable := Some pt'\<rparr>,
                                        c := freeproc (procs ks ! c)]\<rparr>)
          \<and> map (\<lambda>k. pt' (addr + of_nat k)) [0..<4] = map Some (int_bytes (xstate (procs ks ! c))))
   \<and> pstate (freeproc (procs ks ! c)) = UNUSED
   \<and> (\<forall>r ks'. wait_pass p addr ks = W_return r ks' \<longrightarrow> wait p addr (ks # later) = Some (r, ks'))
   \<and> (wait_pass p addr ks = W_sleep \<longrightarrow> wait p addr (ks # later) = wait p addr later)"
proof -
  have a: "\<not> list_ex (\<lambda>j. parent (procs ks ! j) = Some p) [0..<NPROC]
      \<longrightarrow> wait_pass p addr ks = W_return (- 1) ks"
  proof
    assume h: "\<not> list_ex (\<lambda>j. parent (procs ks ! j) = Some p) [0..<NPROC]"
    then have "list_all (\<lambda>j. \<not> zombie_child ks p j) [0..<NPROC]"
      by (auto simp: list_all_iff list_ex_iff zombie_child_def)
    from wait_pass_no_zombie[OF this] h show "wait_pass p addr ks = W_return (- 1) ks" by simp
  qed
  have b: "list_ex (\<lambda>j. parent (procs ks ! j) = Some p) [0..<NPROC]
        \<and> list_all (\<lambda>j. \<not> zombie_child ks p j) [0..<NPROC]
      \<longrightarrow> wait_pass p addr ks = (if killed (procs ks ! p) \<noteq> 0 then W_return (- 1) ks else W_sleep)"
    using wait_pass_no_zombie[of ks p addr] by simp
  have len4: "length (int_bytes (xstate (procs ks ! c))) = 4" by (simp add: int_bytes_def)
  have e: "\<forall>pt'. first_zombie ks p c \<and> addr \<noteq> 0
        \<and> copyout (the (pagetable (procs ks ! p))) addr (int_bytes (xstate (procs ks ! c))) = Some pt'
      \<longrightarrow> wait_pass p addr ks =
            W_return (pid (procs ks ! c))
              (ks\<lparr>procs := (procs ks)[p := (procs ks ! p)\<lparr>pagetable := Some pt'\<rparr>,
                                        c := freeproc (procs ks ! c)]\<rparr>)
          \<and> map (\<lambda>k. pt' (addr + of_nat k)) [0..<4] = map Some (int_bytes (xstate (procs ks ! c)))"
  proof (intro allI impI)
    fix pt'
    assume h: "first_zombie ks p c \<and> addr \<noteq> 0
        \<and> copyout (the (pagetable (procs ks ! p))) addr (int_bytes (xstate (procs ks ! c))) = Some pt'"
    have "map (\<lambda>k. pt' (addr + of_nat k)) [0..<4] = map Some (int_bytes (xstate (procs ks ! c)))"
      using copyout_reads_back[where addr = addr and bs = "int_bytes (xstate (procs ks ! c))"
          and pt' = pt' and pt = "the (pagetable (procs ks ! p))"] h len4 by simp
    then show "wait_pass p addr ks =
            W_return (pid (procs ks ! c))
              (ks\<lparr>procs := (procs ks)[p := (procs ks ! p)\<lparr>pagetable := Some pt'\<rparr>,
                                        c := freeproc (procs ks ! c)]\<rparr>)
          \<and> map (\<lambda>k. pt' (addr + of_nat k)) [0..<4] = map Some (int_bytes (xstate (procs ks ! c)))"
      using wait_pass_zombie[of ks p c addr] h by (simp add: reap_def)
  qed
  have c0: "first_zombie ks p c \<and> addr = 0
      \<longrightarrow> wait_pass p addr ks =
            W_return (pid (procs ks ! c)) (ks\<lparr>procs := (procs ks)[c := freeproc (procs ks ! c)]\<rparr>)"
    using wait_pass_zombie[of ks p c 0] by (auto simp: reap_def)
  have d: "first_zombie ks p c \<and> addr \<noteq> 0
        \<and> copyout (the (pagetable (procs ks ! p))) addr (int_bytes (xstate (procs ks ! c))) = None
      \<longrightarrow> wait_pass p addr ks = W_return (- 1) ks"
    using wait_pass_zombie[of ks p c addr] by (simp add: reap_def)
  have f: "pstate (freeproc (procs ks ! c)) = UNUSED" by (simp add: freeproc_def)
  have g: "\<forall>r ks'. wait_pass p addr ks = W_return r ks' \<longrightarrow> wait p addr (ks # later) = Some (r, ks')"
    by simp
  have h: "wait_pass p addr ks = W_sleep \<longrightarrow> wait p addr (ks # later) = wait p addr later"
    by simp
  show ?thesis
    using a b c0 d e f g h by (intro conjI)
qed


text \<open>
  The theorem at two states: init without children, and init with a zombie child of pid 2.
\<close>

theorem wait_returns_witness:
  "wait_pass 0 0 ex_ks = W_return (- 1) ex_ks
   \<and> first_zombie zombie_ks 0 1
   \<and> wait_pass 0 0 zombie_ks
       = W_return 2 (zombie_ks\<lparr>procs := (procs zombie_ks)[1 := freeproc (procs zombie_ks ! 1)]\<rparr>)
   \<and> wait 0 0 [zombie_ks]
       = Some (2, zombie_ks\<lparr>procs := (procs zombie_ks)[1 := freeproc (procs zombie_ks ! 1)]\<rparr>)"
proof -
  note th = wait_returns[of ex_ks 0 0]
  note tz = wait_returns[of zombie_ks 0 0 1 "[]"]
  have nokids: "\<not> list_ex (\<lambda>j. parent (procs ex_ks ! j) = Some 0) [0..<NPROC]"
    by (auto simp: list_ex_iff ex_ks_def nth_Cons' init_proc_def idle_proc_def NPROC_def)
  have a: "wait_pass 0 0 ex_ks = W_return (- 1) ex_ks" using th nokids by blast
  have fz: "first_zombie zombie_ks 0 1"
    by (simp add: first_zombie_def zombie_child_def zombie_ks_def NPROC_def init_proc_def
        idle_proc_def)
  have pid: "pid (procs zombie_ks ! 1) = 2" by (simp add: zombie_ks_def)
  have b: "wait_pass 0 0 zombie_ks
       = W_return 2 (zombie_ks\<lparr>procs := (procs zombie_ks)[1 := freeproc (procs zombie_ks ! 1)]\<rparr>)"
    using tz fz pid by simp
  have c: "wait 0 0 [zombie_ks]
       = Some (2, zombie_ks\<lparr>procs := (procs zombie_ks)[1 := freeproc (procs zombie_ks ! 1)]\<rparr>)"
    using tz b by blast
  show ?thesis using a fz b c by blast
qed


text \<open>
  Claim C4 as stated fails from right to left: a killed process whose only child is still
  running gets -1 from \<open>wait\<close> although it has a child.
\<close>

theorem wait_killed_counterexample:
  "list_ex (\<lambda>j. parent (procs killed_ks ! j) = Some 0) [0..<NPROC]
   \<and> wait_pass 0 0 killed_ks = W_return (- 1) killed_ks
   \<and> wait 0 0 [killed_ks] = Some (- 1, killed_ks)"
proof -
  have kids: "list_ex (\<lambda>j. parent (procs killed_ks ! j) = Some 0) [0..<NPROC]"
    unfolding list_ex_iff
    by (rule bexI[of _ 1]) (simp_all add: killed_ks_def NPROC_def)
  have nz: "list_all (\<lambda>j. \<not> zombie_child killed_ks 0 j) [0..<NPROC]"
    by (auto simp: list_all_iff zombie_child_def killed_ks_def nth_Cons' init_proc_def
        idle_proc_def NPROC_def)
  have k: "killed (procs killed_ks ! 0) \<noteq> 0" by (simp add: killed_ks_def)
  have "wait_pass 0 0 killed_ks = W_return (- 1) killed_ks"
    using wait_pass_no_zombie[OF nz, of 0] kids k by simp
  then show ?thesis using kids by simp
qed

section \<open>Properties of commit and recovery\<close>

lemma bwrite_simps:
  "mlog (bwrite b x m) = mlog m"
  "mcache (bwrite b x m) = (mcache m)(b := x)"
  "mdisk (bwrite b x m) = (if mpower m = 0 then mdisk m else (mdisk m)(b := x))"
  "mpower (bwrite b x m) = mpower m - 1"
  by (simp_all add: bwrite_def)

lemma copy_loop_Suc:
  "copy_loop dst src post (Suc j) m =
     post j (bwrite (dst j) (mcache (copy_loop dst src post j m) (src j)) (copy_loop dst src post j m))"
  by (simp add: copy_loop_def)

lemma copy_loop_0: "copy_loop dst src post 0 m = m"
  by (simp add: copy_loop_def)

lemma enat_minus_Suc: "(k :: enat) - enat (Suc j) = k - enat j - 1"
  by (cases k) (simp_all add: one_enat_def)

lemma enat_minus_zero_iff: "((k :: enat) - enat j = 0) = (k \<le> enat j)"
  by (cases k) (simp_all add: zero_enat_def)

lemma copy_loop_inv:
  assumes ks: "keeps_store post"
    and sd: "\<forall>s t. s < n \<and> t < n \<longrightarrow> src t \<noteq> dst s"
    and inj: "\<forall>s t. s < n \<and> t < n \<and> dst s = dst t \<longrightarrow> s = t"
    and j: "j \<le> n"
  shows "mlog (copy_loop dst src post j m) = mlog m
    \<and> mpower (copy_loop dst src post j m) = mpower m - enat j
    \<and> (\<forall>t<j. mcache (copy_loop dst src post j m) (dst t) = mcache m (src t))
    \<and> (\<forall>b. (\<forall>t<j. b \<noteq> dst t) \<longrightarrow> mcache (copy_loop dst src post j m) b = mcache m b)
    \<and> (\<forall>t<j. enat t < mpower m \<longrightarrow> mdisk (copy_loop dst src post j m) (dst t) = mcache m (src t))
    \<and> (\<forall>b. (\<forall>t<j. enat t < mpower m \<longrightarrow> b \<noteq> dst t)
          \<longrightarrow> mdisk (copy_loop dst src post j m) b = mdisk m b)"
  using j
proof (induction j)
  case 0
  then show ?case by (simp add: copy_loop_0 zero_enat_def[symmetric])
next
  case (Suc j)
  let ?m = "copy_loop dst src post j m"
  from Suc have jn: "j < n" and ih:
    "mlog ?m = mlog m" "mpower ?m = mpower m - enat j"
    "\<forall>t<j. mcache ?m (dst t) = mcache m (src t)"
    "\<forall>b. (\<forall>t<j. b \<noteq> dst t) \<longrightarrow> mcache ?m b = mcache m b"
    "\<forall>t<j. enat t < mpower m \<longrightarrow> mdisk ?m (dst t) = mcache m (src t)"
    "\<forall>b. (\<forall>t<j. enat t < mpower m \<longrightarrow> b \<noteq> dst t) \<longrightarrow> mdisk ?m b = mdisk m b"
    by simp_all
  have srcj: "mcache ?m (src j) = mcache m (src j)"
    using ih(4) sd jn by (metis less_trans)
  let ?w = "bwrite (dst j) (mcache m (src j)) ?m"
  have eq: "copy_loop dst src post (Suc j) m = post j ?w"
    by (simp add: copy_loop_Suc srcj)
  have p: "mdisk (post j ?w) = mdisk ?w" "mcache (post j ?w) = mcache ?w"
    "mpower (post j ?w) = mpower ?w" "mlog (post j ?w) = mlog ?w"
    using ks by (simp_all add: keeps_store_def)
  have lost: "(mpower ?m = 0) = (\<not> enat j < mpower m)"
    using ih(2) by (simp add: enat_minus_zero_iff not_less)
  have c1: "mlog (post j ?w) = mlog m" using p ih(1) by (simp add: bwrite_simps)
  have c2: "mpower (post j ?w) = mpower m - enat (Suc j)"
    using p ih(2) by (simp add: bwrite_simps enat_minus_Suc)
  have c3: "\<forall>t<Suc j. mcache (post j ?w) (dst t) = mcache m (src t)"
  proof (intro allI impI)
    fix t assume t: "t < Suc j"
    show "mcache (post j ?w) (dst t) = mcache m (src t)"
    proof (cases "t = j")
      case True
      then show ?thesis using p by (simp add: bwrite_simps)
    next
      case False
      then have tj: "t < j" using t by simp
      then have "dst t \<noteq> dst j" using inj jn by (metis less_trans nat_neq_iff)
      then show ?thesis using p ih(3) tj by (simp add: bwrite_simps)
    qed
  qed
  have c4: "\<forall>b. (\<forall>t<Suc j. b \<noteq> dst t) \<longrightarrow> mcache (post j ?w) b = mcache m b"
    using p ih(4) by (simp add: bwrite_simps)
  have c5: "\<forall>t<Suc j. enat t < mpower m \<longrightarrow> mdisk (post j ?w) (dst t) = mcache m (src t)"
  proof (intro allI impI)
    fix t assume t: "t < Suc j" and tp: "enat t < mpower m"
    show "mdisk (post j ?w) (dst t) = mcache m (src t)"
    proof (cases "t = j")
      case True
      then show ?thesis using p lost tp by (simp add: bwrite_simps)
    next
      case False
      then have tj: "t < j" using t by simp
      then have "dst t \<noteq> dst j" using inj jn by (metis less_trans nat_neq_iff)
      then show ?thesis using p ih(5) tj tp by (simp add: bwrite_simps)
    qed
  qed
  have c6: "\<forall>b. (\<forall>t<Suc j. enat t < mpower m \<longrightarrow> b \<noteq> dst t) \<longrightarrow> mdisk (post j ?w) b = mdisk m b"
  proof (intro allI impI)
    fix b assume b: "\<forall>t<Suc j. enat t < mpower m \<longrightarrow> b \<noteq> dst t"
    then have "\<forall>t<j. enat t < mpower m \<longrightarrow> b \<noteq> dst t" by simp
    then have old: "mdisk ?m b = mdisk m b" using ih(6) by simp
    show "mdisk (post j ?w) b = mdisk m b"
    proof (cases "enat j < mpower m")
      case True
      then have "b \<noteq> dst j" using b by simp
      then show ?thesis using p old by (simp add: bwrite_simps)
    next
      case False
      then show ?thesis using p old lost by (simp add: bwrite_simps)
    qed
  qed
  show ?case unfolding eq using c1 c2 c3 c4 c5 c6 by blast
qed

lemma fold_cong_inv:
  assumes "I s" and "\<And>x s. x \<in> set xs \<Longrightarrow> I s \<Longrightarrow> f x s = g x s \<and> I (g x s)"
  shows "fold f xs s = fold g xs s"
  using assms
proof (induction xs arbitrary: s)
  case Nil
  then show ?case by simp
next
  case (Cons x xs)
  have "f x s = g x s" "I (g x s)" using Cons.prems by simp_all
  moreover have "fold f xs (g x s) = fold g xs (g x s)"
    using Cons.IH[of "g x s"] Cons.prems \<open>I (g x s)\<close> by simp
  ultimately show ?case by simp
qed

lemma write_log_copy:
  "write_log m = copy_loop (logblk m) (home m) (\<lambda>t s. s) (nat (lh_n (lh (mlog m)))) m"
  unfolding write_log_def copy_loop_def
  by (rule fold_cong_inv[where I = "\<lambda>s. mlog s = mlog m"])
     (simp_all add: bread_def logblk_def home_def Let_def bwrite_simps)

lemma unpin_post_keeps: "keeps_store (unpin_post r m)"
  by (simp add: keeps_store_def unpin_post_def bunpin_def)

lemma id_post_keeps: "keeps_store (\<lambda>t s. s)"
  by (simp add: keeps_store_def)

lemma install_trans_copy:
  "install_trans r m =
     copy_loop (home m) (logblk m) (unpin_post r m) (nat (lh_n (lh (mlog m)))) m"
  unfolding install_trans_def copy_loop_def
  by (rule fold_cong_inv[where I = "\<lambda>s. mlog s = mlog m"])
     (simp_all add: bread_def logblk_def home_def Let_def bwrite_simps unpin_post_def bunpin_def)

lemma write_head_eq:
  "write_head m = bwrite (headblk m) (encode_head (mcache m (headblk m)) (lh (mlog m))) m"
  by (simp add: write_head_def encode_head_def bread_def Let_def)

lemma bytes32:
  fixes v :: uint
  shows "ucast (ucast v :: uchar) OR push_bit 8 (ucast (ucast (drop_bit 8 v) :: uchar))
           OR push_bit 16 (ucast (ucast (drop_bit 16 v) :: uchar))
           OR push_bit 24 (ucast (ucast (drop_bit 24 v) :: uchar)) = v"
proof (rule bit_word_eqI)
  fix n assume n: "n < LENGTH(32)"
  then have "n < 32" by simp
  then consider "n < 8" | "8 \<le> n" "n < 16" | "16 \<le> n" "n < 24" | "24 \<le> n" "n < 32"
    by linarith
  then show "bit (ucast (ucast v :: uchar) OR push_bit 8 (ucast (ucast (drop_bit 8 v) :: uchar))
           OR push_bit 16 (ucast (ucast (drop_bit 16 v) :: uchar))
           OR push_bit 24 (ucast (ucast (drop_bit 24 v) :: uchar)) :: uint) n = bit v n"
    by cases (auto simp add: bit_simps)
qed

lemma get32_set32_same: "get32 (set32 b i v) i = v"
  by (simp add: get32_def set32_def bytes32)

lemma get32_set32_other: "j \<noteq> i \<Longrightarrow> get32 (set32 b i v) j = get32 b j"
  by (simp add: get32_def set32_def)

lemma get32_fold_set32:
  "get32 (fold (\<lambda>i b. set32 b (Suc i) (g i)) [0..<j] b0) q =
     (if 0 < q \<and> q \<le> j then g (q - 1) else get32 b0 q)"
proof (induction j)
  case 0
  then show ?case by auto
next
  case (Suc j)
  show ?case
  proof (cases "q = Suc j")
    case True
    then show ?thesis by (simp add: get32_set32_same)
  next
    case False
    then have "get32 (fold (\<lambda>i b. set32 b (Suc i) (g i)) [0..<Suc j] b0) q
                = get32 (fold (\<lambda>i b. set32 b (Suc i) (g i)) [0..<j] b0) q"
      by (simp add: get32_set32_other)
    then show ?thesis using Suc False by auto
  qed
qed

lemma encode_head_count: "get32 (encode_head buf h) 0 = word_of_int (lh_n h)"
  by (simp add: encode_head_def get32_fold_set32 get32_set32_same)

lemma encode_head_block:
  "i < nat (lh_n h) \<Longrightarrow> get32 (encode_head buf h) (Suc i) = lh_block h ! i"
  by (simp add: encode_head_def get32_fold_set32)

lemma sint_small: "0 \<le> x \<Longrightarrow> x \<le> 30 \<Longrightarrow> sint (word_of_int x :: uint) = x"
  by (simp add: signed_of_int signed_take_bit_int_eq_self)

lemma fold_update_length: "length (fold (\<lambda>i bl. bl[i := g i]) [0..<j] bl0) = length bl0"
  by (induction j) simp_all

lemma fold_update_nth:
  "q < length bl0 \<Longrightarrow>
   fold (\<lambda>i bl. bl[i := g i]) [0..<j] bl0 ! q = (if q < j then g q else bl0 ! q)"
proof (induction j)
  case 0
  then show ?case by simp
next
  case (Suc j)
  let ?f = "fold (\<lambda>i bl. bl[i := g i]) [0..<j] bl0"
  have len: "length ?f = length bl0" by (rule fold_update_length)
  have "fold (\<lambda>i bl. bl[i := g i]) [0..<Suc j] bl0 ! q = ?f[j := g j] ! q" by simp
  also have "\<dots> = (if q = j then g j else ?f ! q)"
    using Suc.prems len by (simp add: nth_list_update)
  also have "\<dots> = (if q < Suc j then g q else bl0 ! q)"
    using Suc by auto
  finally show ?case .
qed

lemma uint_of_int_range: "0 \<le> x \<Longrightarrow> x < 2 ^ 32 \<Longrightarrow> uint (word_of_int x :: uint) = x"
  by (simp add: uint_word_of_int)

lemma trans_wf_blocks:
  assumes wf: "trans_wf m"
  defines "n \<equiv> nat (lh_n (lh (mlog m)))"
  shows "\<forall>t<n. home m t \<noteq> headblk m"
    and "\<forall>s t. s < n \<and> t < n \<longrightarrow> home m t \<noteq> logblk m s"
    and "\<forall>s t. s < n \<and> t < n \<and> logblk m s = logblk m t \<longrightarrow> s = t"
    and "\<forall>s t. s < n \<and> t < n \<and> home m s = home m t \<longrightarrow> s = t"
    and "\<forall>t<n. logblk m t \<noteq> headblk m"
proof -
  let ?st = "start (mlog m)" and ?sz = "lsize (mlog m)"
  have n0: "0 \<le> lh_n (lh (mlog m))" and nl: "lh_n (lh (mlog m)) < ?sz" and s0: "0 \<le> ?st"
    and top: "?st + ?sz \<le> 2 ^ 32"
    and len: "length (lh_block (lh (mlog m))) = nat LOGSIZE" and nmax: "lh_n (lh (mlog m)) \<le> LOGSIZE"
    and dis: "distinct (take n (lh_block (lh (mlog m))))"
    and out: "list_all (\<lambda>b. uint b < ?st \<or> ?st + ?sz \<le> uint b) (take n (lh_block (lh (mlog m))))"
    using wf by (simp_all add: trans_wf_def log_wf_def n_def)
  have nlen: "n \<le> length (lh_block (lh (mlog m)))" using len nmax n0 by (simp add: n_def)
  have uh: "uint (headblk m) = ?st"
    unfolding headblk_def using s0 top nl n0 by (intro uint_of_int_range) simp_all
  have ul: "\<And>t. t < n \<Longrightarrow> uint (logblk m t) = ?st + int t + 1"
    unfolding logblk_def using s0 top nl n0 by (intro uint_of_int_range) (simp_all add: n_def)
  have oh: "\<And>t. t < n \<Longrightarrow> uint (home m t) < ?st \<or> ?st + ?sz \<le> uint (home m t)"
  proof -
    fix t assume t: "t < n"
    then have "take n (lh_block (lh (mlog m))) ! t = home m t" by (simp add: home_def)
    moreover have "t < length (take n (lh_block (lh (mlog m))))" using t nlen by simp
    ultimately show "uint (home m t) < ?st \<or> ?st + ?sz \<le> uint (home m t)"
      using out unfolding list_all_length by auto
  qed
  show "\<forall>t<n. home m t \<noteq> headblk m"
  proof (intro allI impI notI)
    fix t assume t: "t < n" and e: "home m t = headblk m"
    have "uint (home m t) = ?st" using uh e by simp
    then show False using oh[OF t] nl n0 by linarith
  qed
  show "\<forall>s t. s < n \<and> t < n \<longrightarrow> home m t \<noteq> logblk m s"
  proof (intro allI impI notI)
    fix s t assume st: "s < n \<and> t < n" and e: "home m t = logblk m s"
    have "uint (logblk m s) = ?st + int s + 1" using ul[of s] st by blast
    then have "uint (home m t) = ?st + int s + 1" using e by simp
    moreover have "int s + 1 \<le> lh_n (lh (mlog m))" using st unfolding n_def by linarith
    ultimately show False using oh[of t] st nl by linarith
  qed
  show "\<forall>s t. s < n \<and> t < n \<and> logblk m s = logblk m t \<longrightarrow> s = t"
  proof (intro allI impI)
    fix s t assume st: "s < n \<and> t < n \<and> logblk m s = logblk m t"
    then have "uint (logblk m s) = uint (logblk m t)" by simp
    moreover have "uint (logblk m s) = ?st + int s + 1" using ul[of s] st by blast
    moreover have "uint (logblk m t) = ?st + int t + 1" using ul[of t] st by blast
    ultimately show "s = t" by linarith
  qed
  show "\<forall>s t. s < n \<and> t < n \<and> home m s = home m t \<longrightarrow> s = t"
  proof (intro allI impI)
    fix s t assume st: "s < n \<and> t < n \<and> home m s = home m t"
    let ?xs = "take n (lh_block (lh (mlog m)))"
    have "?xs ! s = ?xs ! t" using st by (simp add: home_def)
    moreover have "s < length ?xs" "t < length ?xs" using st nlen by simp_all
    ultimately show "s = t" using dis nth_eq_iff_index_eq by blast
  qed
  show "\<forall>t<n. logblk m t \<noteq> headblk m"
  proof (intro allI impI notI)
    fix t assume t: "t < n" and e: "logblk m t = headblk m"
    then have "uint (logblk m t) = uint (headblk m)" by simp
    moreover have "uint (logblk m t) = ?st + int t + 1" using ul[OF t] .
    ultimately show False using uh by linarith
  qed
qed

lemma reboot_simps:
  "mdisk (reboot x) = mdisk x" "mcache (reboot x) = mdisk x" "mpower (reboot x) = \<infinity>"
  "headblk (reboot x) = headblk x" "logblk (reboot x) = logblk x"
  "lh (mlog (reboot x)) = \<lparr>lh_n = 0, lh_block = replicate (nat LOGSIZE) 0\<rparr>"
  by (simp_all add: reboot_def headblk_def logblk_def fun_eq_iff)

lemma read_head_simps:
  "mdisk (read_head x) = mdisk x" "mcache (read_head x) = mcache x" "mpower (read_head x) = mpower x"
  "headblk (read_head x) = headblk x" "logblk (read_head x) = logblk x"
  "lh_n (lh (mlog (read_head x))) = sint (get32 (mcache x (headblk x)) 0)"
  "lh_block (lh (mlog (read_head x))) =
     fold (\<lambda>i bl. bl[i := get32 (mcache x (headblk x)) (i + 1)])
       [0..<nat (sint (get32 (mcache x (headblk x)) 0))] (lh_block (lh (mlog x)))"
  by (simp_all add: read_head_def Let_def bread_def headblk_def logblk_def fun_eq_iff)

lemma set_lh_n_simps:
  "mdisk (set_lh_n j x) = mdisk x" "mcache (set_lh_n j x) = mcache x"
  "mpower (set_lh_n j x) = mpower x" "headblk (set_lh_n j x) = headblk x"
  "lh_n (lh (mlog (set_lh_n j x))) = j"
  by (simp_all add: set_lh_n_def headblk_def)

lemma write_head_disk:
  "b \<noteq> headblk x \<Longrightarrow> mdisk (write_head x) b = mdisk x b"
  by (simp add: write_head_eq bwrite_simps)

lemma recover_clear:
  assumes "sint (get32 (mdisk x (headblk x)) 0) = 0" and "b \<noteq> headblk x"
  shows "mdisk (recover_from_log (reboot x)) b = mdisk x b"
proof -
  let ?r1 = "read_head (reboot x)"
  have n0: "lh_n (lh (mlog ?r1)) = 0"
    using assms(1) by (simp add: read_head_simps reboot_simps)
  have "install_trans 1 ?r1 = ?r1"
    by (simp add: install_trans_def n0)
  then have "recover_from_log (reboot x) = write_head (set_lh_n 0 ?r1)"
    by (simp add: recover_from_log_def)
  then show ?thesis
    using assms(2) by (simp add: write_head_disk set_lh_n_simps read_head_simps reboot_simps)
qed

lemma recover_replay:
  assumes cnt: "get32 (mdisk x (headblk x)) 0 = word_of_int nn" and nn: "0 \<le> nn" "nn \<le> LOGSIZE"
    and blk: "\<forall>i < nat nn. get32 (mdisk x (headblk x)) (Suc i) = hs i"
    and sd: "\<forall>s t. s < nat nn \<and> t < nat nn \<longrightarrow> logblk x t \<noteq> hs s"
    and inj: "\<forall>s t. s < nat nn \<and> t < nat nn \<and> hs s = hs t \<longrightarrow> s = t"
    and hh: "\<forall>t < nat nn. hs t \<noteq> headblk x"
    and t: "t < nat nn"
  shows "mdisk (recover_from_log (reboot x)) (hs t) = mdisk x (logblk x t)"
proof -
  let ?r1 = "read_head (reboot x)"
  have n1: "lh_n (lh (mlog ?r1)) = nn"
    using cnt nn by (simp add: read_head_simps reboot_simps sint_small LOGSIZE_def MAXOPBLOCKS_def)
  have h1: "\<And>i. i < nat nn \<Longrightarrow> home ?r1 i = hs i"
  proof -
    fix i assume i: "i < nat nn"
    then have "i < length (replicate (nat LOGSIZE) (0::uint))" using nn by simp
    then show "home ?r1 i = hs i"
      using i blk cnt nn
      by (simp add: home_def read_head_simps reboot_simps fold_update_nth sint_small
          LOGSIZE_def MAXOPBLOCKS_def)
  qed
  let ?r2 = "install_trans 1 ?r1"
  have r2: "?r2 = copy_loop (home ?r1) (logblk x) (unpin_post 1 ?r1) (nat nn) ?r1"
    by (simp only: install_trans_copy n1 read_head_simps(5) reboot_simps(5))
  have sd': "\<forall>s t. s < nat nn \<and> t < nat nn \<longrightarrow> logblk x t \<noteq> home ?r1 s"
    using sd h1 by simp
  have inj': "\<forall>s t. s < nat nn \<and> t < nat nn \<and> home ?r1 s = home ?r1 t \<longrightarrow> s = t"
    using inj h1 by auto
  note cl = copy_loop_inv[OF unpin_post_keeps sd' inj' le_refl, of 1 ?r1 ?r1]
  have lg: "mlog ?r2 = mlog ?r1" unfolding r2 using cl by blast
  have "\<forall>s<nat nn. enat s < mpower ?r1 \<longrightarrow> mdisk ?r2 (home ?r1 s) = mcache ?r1 (logblk x s)"
    unfolding r2 using cl by blast
  then have "mdisk ?r2 (hs t) = mdisk x (logblk x t)"
    using t h1 by (simp add: read_head_simps reboot_simps)
  moreover have "headblk (set_lh_n 0 ?r2) = headblk x"
  proof -
    have "headblk (set_lh_n 0 ?r2) = headblk ?r2" by (simp add: set_lh_n_simps)
    also have "\<dots> = headblk ?r1" using lg by (simp add: headblk_def)
    also have "\<dots> = headblk x" by (simp add: read_head_simps reboot_simps)
    finally show ?thesis .
  qed
  ultimately show ?thesis
    using hh t by (simp add: recover_from_log_def write_head_disk set_lh_n_simps)
qed

lemma enat_pos_minus: "enat n < k \<Longrightarrow> k - enat n \<noteq> 0"
  by (simp add: enat_minus_zero_iff not_le)

lemma commit_disk:
  fixes k :: enat
  assumes wf: "trans_wf m" and pos: "0 < lh_n (lh (mlog m))"
  defines "n \<equiv> nat (lh_n (lh (mlog m)))"
  defines "D \<equiv> mdisk (commit (m\<lparr>mpower := k\<rparr>))"
  shows "k \<le> enat n \<longrightarrow> D (headblk m) = mdisk m (headblk m) \<and> (\<forall>t<n. D (home m t) = mdisk m (home m t))"
    and "enat n < k \<longrightarrow> (\<forall>t<n. D (logblk m t) = mcache m (home m t))
          \<and> ((get32 (D (headblk m)) 0 = word_of_int (lh_n (lh (mlog m)))
                \<and> (\<forall>i<n. get32 (D (headblk m)) (Suc i) = home m i))
              \<or> (get32 (D (headblk m)) 0 = 0 \<and> (\<forall>t<n. D (home m t) = mcache m (home m t))))"
    and "headblk (commit (m\<lparr>mpower := k\<rparr>)) = headblk m"
    and "logblk (commit (m\<lparr>mpower := k\<rparr>)) = logblk m"
    and "k = \<infinity> \<longrightarrow> sint (get32 (D (headblk m)) 0) = 0"
proof -
  let ?H = "headblk m" and ?L = "logblk m" and ?h = "home m"
  let ?ma = "m\<lparr>mpower := k\<rparr>"
  note bl = trans_wf_blocks[OF wf, folded n_def]
  have m0: "mlog ?ma = mlog m" "mcache ?ma = mcache m" "mdisk ?ma = mdisk m" "mpower ?ma = k"
    "logblk ?ma = ?L" "home ?ma = ?h" "headblk ?ma = ?H"
    by (simp_all add: logblk_def home_def headblk_def fun_eq_iff)
  let ?mb = "write_log ?ma"
  have m1eq: "?mb = copy_loop ?L ?h (\<lambda>t s. s) n ?ma"
    by (simp only: write_log_copy m0 n_def)
  note A = copy_loop_inv[OF id_post_keeps bl(2) bl(3) le_refl, of ?ma, folded m1eq, unfolded m0]
  have A1: "mlog ?mb = mlog m" and A2: "mpower ?mb = k - enat n"
    and A3: "\<forall>t<n. mcache ?mb (?L t) = mcache m (?h t)"
    and A4: "\<forall>b. (\<forall>t<n. b \<noteq> ?L t) \<longrightarrow> mcache ?mb b = mcache m b"
    and A5: "\<forall>t<n. enat t < k \<longrightarrow> mdisk ?mb (?L t) = mcache m (?h t)"
    and A6: "\<forall>b. (\<forall>t<n. enat t < k \<longrightarrow> b \<noteq> ?L t) \<longrightarrow> mdisk ?mb b = mdisk m b"
    using A by blast+
  have f1: "headblk ?mb = ?H" "logblk ?mb = ?L" "home ?mb = ?h"
    using A1 by (simp_all add: headblk_def logblk_def home_def fun_eq_iff)
  let ?hdr = "encode_head (mcache ?mb ?H) (lh (mlog m))"
  let ?mc = "write_head ?mb"
  have m2eq: "?mc = bwrite ?H ?hdr ?mb"
    by (simp add: write_head_eq f1 A1)
  have B1: "mlog ?mc = mlog m" and B2: "mpower ?mc = k - enat n - 1"
    and B3: "mcache ?mc = (mcache ?mb)(?H := ?hdr)"
    and B4: "mdisk ?mc = (if k - enat n = 0 then mdisk ?mb else (mdisk ?mb)(?H := ?hdr))"
    unfolding m2eq using A1 A2 by (simp_all add: bwrite_simps)
  have f2: "headblk ?mc = ?H" "logblk ?mc = ?L" "home ?mc = ?h"
    using B1 by (simp_all add: headblk_def logblk_def home_def fun_eq_iff)
  let ?md = "install_trans 0 ?mc"
  have m3eq: "?md = copy_loop ?h ?L (unpin_post 0 ?mc) n ?mc"
    by (simp only: install_trans_copy f2 B1 n_def)
  have sd': "\<forall>s t. s < n \<and> t < n \<longrightarrow> ?L t \<noteq> ?h s" using bl(2) by metis
  note C = copy_loop_inv[OF unpin_post_keeps sd' bl(4) le_refl, of 0 ?mc ?mc, folded m3eq]
  have C1: "mlog ?md = mlog m" and C2: "mpower ?md = mpower ?mc - enat n"
    and C4: "\<forall>b. (\<forall>t<n. b \<noteq> ?h t) \<longrightarrow> mcache ?md b = mcache ?mc b"
    and C5: "\<forall>t<n. enat t < mpower ?mc \<longrightarrow> mdisk ?md (?h t) = mcache ?mc (?L t)"
    and C6: "\<forall>b. (\<forall>t<n. enat t < mpower ?mc \<longrightarrow> b \<noteq> ?h t) \<longrightarrow> mdisk ?md b = mdisk ?mc b"
    using C B1 by simp_all
  let ?me = "set_lh_n 0 ?md"
  have f4: "headblk ?me = ?H" "logblk ?me = ?L"
    using C1 by (simp_all add: headblk_def logblk_def set_lh_n_def fun_eq_iff)
  let ?clr = "encode_head (mcache ?me ?H) (lh (mlog ?me))"
  let ?mf = "write_head ?me"
  have m5eq: "?mf = bwrite ?H ?clr ?me"
    using write_head_eq[of ?me] unfolding f4(1) by assumption
  have cm: "commit ?ma = ?mf"
    using pos by (simp add: commit_def)
  have h0: "get32 ?clr 0 = 0"
    by (simp add: encode_head_count set_lh_n_simps)
  have E: "mdisk ?mf = (if mpower ?md = 0 then mdisk ?md else (mdisk ?md)(?H := ?clr))"
    unfolding m5eq by (simp add: bwrite_simps set_lh_n_simps)
  have Deq: "D = mdisk ?mf" by (simp add: D_def cm)
  show "headblk (commit ?ma) = ?H" unfolding cm
    using f4 by (simp add: m5eq headblk_def bwrite_simps)
  show "logblk (commit ?ma) = ?L" unfolding cm
    using f4 by (simp add: m5eq logblk_def bwrite_simps fun_eq_iff)
  show "k = \<infinity> \<longrightarrow> sint (get32 (D ?H) 0) = 0"
  proof
    assume ki: "k = \<infinity>"
    have "mpower ?md = \<infinity>" using C2 B2 ki by simp
    then have "D ?H = ?clr" using Deq E by simp
    then show "sint (get32 (D ?H) 0) = 0" using h0 by simp
  qed
  show "k \<le> enat n \<longrightarrow> D ?H = mdisk m ?H \<and> (\<forall>t<n. D (?h t) = mdisk m (?h t))"
  proof
    assume kn: "k \<le> enat n"
    then have z1: "k - enat n = 0" by (simp add: enat_minus_zero_iff)
    then have z2: "mpower ?mc = 0" using B2 by simp
    then have z3: "mpower ?md = 0" using C2 by simp
    have d3: "mdisk ?md = mdisk ?mc" using C6 z2 by (simp add: fun_eq_iff zero_enat_def[symmetric])
    have d2: "mdisk ?mc = mdisk ?mb" using B4 z1 by simp
    have "D = mdisk ?mb" using Deq E z3 d3 d2 by simp
    moreover have "mdisk ?mb ?H = mdisk m ?H" using A6 bl(5) by metis
    moreover have "\<forall>t<n. mdisk ?mb (?h t) = mdisk m (?h t)" using A6 bl(2) by metis
    ultimately show "D ?H = mdisk m ?H \<and> (\<forall>t<n. D (?h t) = mdisk m (?h t))" by simp
  qed
  show "enat n < k \<longrightarrow> (\<forall>t<n. D (?L t) = mcache m (?h t))
          \<and> ((get32 (D ?H) 0 = word_of_int (lh_n (lh (mlog m)))
                \<and> (\<forall>i<n. get32 (D ?H) (Suc i) = ?h i))
              \<or> (get32 (D ?H) 0 = 0 \<and> (\<forall>t<n. D (?h t) = mcache m (?h t))))"
  proof
    assume nk: "enat n < k"
    then have nz: "k - enat n \<noteq> 0" by (rule enat_pos_minus)
    have d2: "mdisk ?mc = (mdisk ?mb)(?H := ?hdr)" using B4 nz by simp
    have logs: "\<forall>t<n. D (?L t) = mcache m (?h t)"
    proof (intro allI impI)
      fix t assume t: "t < n"
      have "enat t < k" using t nk by (meson enat_ord_simps(2) less_trans)
      then have "mdisk ?mb (?L t) = mcache m (?h t)" using A5 t by simp
      moreover have "mdisk ?mc (?L t) = mdisk ?mb (?L t)" using d2 bl(5) t by simp
      moreover have "mdisk ?md (?L t) = mdisk ?mc (?L t)" using C6 sd' t by metis
      moreover have "D (?L t) = mdisk ?md (?L t)" using Deq E bl(5) t by simp
      ultimately show "D (?L t) = mcache m (?h t)" by simp
    qed
    have hd3: "mdisk ?md ?H = ?hdr" using C6 bl(1) d2 by (metis fun_upd_same)
    have head: "(get32 (D ?H) 0 = word_of_int (lh_n (lh (mlog m)))
                \<and> (\<forall>i<n. get32 (D ?H) (Suc i) = ?h i))
              \<or> (get32 (D ?H) 0 = 0 \<and> (\<forall>t<n. D (?h t) = mcache m (?h t)))"
    proof (cases "mpower ?md = 0")
      case True
      then have "D ?H = ?hdr" using Deq E hd3 by simp
      then show ?thesis
        by (simp add: encode_head_count encode_head_block n_def home_def)
    next
      case False
      then have "enat n < mpower ?mc" using C2 by (simp add: enat_minus_zero_iff not_le)
      then have all: "\<forall>t<n. enat t < mpower ?mc"
        by (meson enat_ord_simps(2) less_trans)
      have "\<forall>t<n. D (?h t) = mcache m (?h t)"
      proof (intro allI impI)
        fix t assume t: "t < n"
        have "mdisk ?md (?h t) = mcache ?mc (?L t)" using C5 all t by simp
        also have "\<dots> = mcache ?mb (?L t)" using B3 bl(5) t by simp
        also have "\<dots> = mcache m (?h t)" using A3 t by simp
        finally have "mdisk ?md (?h t) = mcache m (?h t)" .
        moreover have "D (?h t) = mdisk ?md (?h t)" using Deq E bl(1) t by simp
        ultimately show "D (?h t) = mcache m (?h t)" by simp
      qed
      moreover have "D ?H = ?clr" using Deq E False by simp
      ultimately show ?thesis using h0 by simp
    qed
    show "(\<forall>t<n. D (?L t) = mcache m (?h t))
          \<and> ((get32 (D ?H) 0 = word_of_int (lh_n (lh (mlog m)))
                \<and> (\<forall>i<n. get32 (D ?H) (Suc i) = ?h i))
              \<or> (get32 (D ?H) 0 = 0 \<and> (\<forall>t<n. D (?h t) = mcache m (?h t))))"
      using logs head by blast
  qed
qed


lemma copy_loop_log:
  assumes ks: "keeps_store post"
  shows "mlog (copy_loop dst src post j m) = mlog m
    \<and> mpower (copy_loop dst src post j m) = mpower m - enat j"
proof (induction j)
  case 0
  then show ?case by (simp add: copy_loop_0 zero_enat_def[symmetric])
next
  case (Suc j)
  let ?m = "copy_loop dst src post j m"
  let ?w = "bwrite (dst j) (mcache ?m (src j)) ?m"
  have p: "mpower (post j ?w) = mpower ?w" "mlog (post j ?w) = mlog ?w"
    using ks by (simp_all add: keeps_store_def)
  show ?case using Suc p by (simp add: copy_loop_Suc bwrite_simps enat_minus_Suc)
qed

lemma recover_clears:
  "sint (get32 (mdisk (recover_from_log (reboot x)) (headblk x)) 0) = 0"
  "start (mlog (recover_from_log (reboot x))) = start (mlog x)"
  "lsize (mlog (recover_from_log (reboot x))) = lsize (mlog x)"
proof -
  let ?r1 = "read_head (reboot x)"
  let ?r2 = "install_trans 1 ?r1"
  let ?r3 = "set_lh_n 0 ?r2"
  have l1: "start (mlog ?r1) = start (mlog x)" "lsize (mlog ?r1) = lsize (mlog x)"
    "mpower ?r1 = \<infinity>"
    by (simp_all add: read_head_def reboot_def Let_def)
  note cl = copy_loop_log[OF unpin_post_keeps[of 1 ?r1], where dst = "home ?r1"
      and src = "logblk ?r1" and j = "nat (lh_n (lh (mlog ?r1)))" and m = ?r1,
      folded install_trans_copy]
  have l2: "mlog ?r2 = mlog ?r1" "mpower ?r2 = \<infinity>" using cl l1(3) by simp_all
  have l3: "start (mlog ?r3) = start (mlog x)" "lsize (mlog ?r3) = lsize (mlog x)"
    "mpower ?r3 = \<infinity>" "headblk ?r3 = headblk x" "lh_n (lh (mlog ?r3)) = 0"
    using l1 l2 by (simp_all add: set_lh_n_def headblk_def)
  have e: "recover_from_log (reboot x)
             = bwrite (headblk x) (encode_head (mcache ?r3 (headblk x)) (lh (mlog ?r3))) ?r3"
    using write_head_eq[of ?r3] unfolding l3(4) by (simp add: recover_from_log_def)
  have "mdisk (recover_from_log (reboot x)) (headblk x)
          = encode_head (mcache ?r3 (headblk x)) (lh (mlog ?r3))"
    unfolding e using l3(3) by (simp add: bwrite_simps)
  then show "sint (get32 (mdisk (recover_from_log (reboot x)) (headblk x)) 0) = 0"
    by (simp add: encode_head_count l3(5))
  show "start (mlog (recover_from_log (reboot x))) = start (mlog x)"
    "lsize (mlog (recover_from_log (reboot x))) = lsize (mlog x)"
    unfolding e using l3 by (simp_all add: bwrite_simps)
qed

lemma commit_area:
  "start (mlog (commit y)) = start (mlog y)" "lsize (mlog (commit y)) = lsize (mlog y)"
proof -
  let ?n = "nat (lh_n (lh (mlog y)))"
  let ?b = "write_log y"
  have b: "mlog ?b = mlog y"
    using copy_loop_log[OF id_post_keeps, where dst = "logblk y" and src = "home y"
        and j = ?n and m = y, folded write_log_copy]
    by simp
  let ?c = "write_head ?b"
  have c: "mlog ?c = mlog y" using b by (simp add: write_head_eq bwrite_simps)
  let ?d = "install_trans 0 ?c"
  have d: "mlog ?d = mlog y"
    using copy_loop_log[OF unpin_post_keeps[of 0 ?c], where dst = "home ?c"
        and src = "logblk ?c" and j = "nat (lh_n (lh (mlog ?c)))" and m = ?c,
        folded install_trans_copy] c
    by simp
  let ?e = "set_lh_n 0 ?d"
  have e: "start (mlog ?e) = start (mlog y)" "lsize (mlog ?e) = lsize (mlog y)"
    using d by (simp_all add: set_lh_n_def)
  have f: "mlog (write_head ?e) = mlog ?e" by (simp add: write_head_eq bwrite_simps)
  show "start (mlog (commit y)) = start (mlog y)" "lsize (mlog (commit y)) = lsize (mlog y)"
    using e f by (simp_all add: commit_def)
qed

lemma staged_trans_wf:
  assumes c: "sint (get32 (mdisk m (headblk m)) 0) = 0" and a: "area_ok m" and s: "staged m m'"
  shows "trans_wf m'" "headblk m' = headblk m"
proof -
  show h: "headblk m' = headblk m" using s by (simp add: staged_def headblk_def)
  have c': "sint (get32 (mdisk m' (headblk m')) 0) = 0" using c s h by (simp add: staged_def)
  have a': "0 \<le> start (mlog m')" "start (mlog m') + lsize (mlog m') \<le> 2 ^ 32"
    using a s by (simp_all add: staged_def area_ok_def)
  show "trans_wf m'" unfolding trans_wf_def using s[unfolded staged_def] a' c' by blast
qed

lemma reach_clear:
  "reach m \<Longrightarrow> sint (get32 (mdisk m (headblk m)) 0) = 0 \<and> area_ok m"
proof (induction rule: reach.induct)
  case (boot x)
  have "headblk (recover_from_log (reboot x)) = headblk x"
    using recover_clears(2)[of x] by (simp add: headblk_def)
  then show ?case using recover_clears[of x] boot by (simp add: area_ok_def)
next
  case (committed m m')
  then have c: "sint (get32 (mdisk m (headblk m)) 0) = 0" and a: "area_ok m" by simp_all
  note wf = staged_trans_wf[OF c a committed.hyps(2)]
  let ?y = "m'\<lparr>mpower := \<infinity>\<rparr>"
  have st: "start (mlog m') = start (mlog m)" "lsize (mlog m') = lsize (mlog m)"
    using committed.hyps(2) by (simp_all add: staged_def)
  have ar: "area_ok (commit ?y)" using a st commit_area[of ?y] by (simp add: area_ok_def)
  have hb: "headblk (commit ?y) = headblk m'" using commit_area(1)[of ?y] by (simp add: headblk_def)
  have "sint (get32 (mdisk (commit ?y) (headblk m')) 0) = 0"
  proof (cases "0 < lh_n (lh (mlog m'))")
    case True
    from commit_disk(5)[OF wf(1) True, of \<infinity>] show ?thesis by simp
  next
    case False
    then have "commit ?y = ?y" by (simp add: commit_def)
    then show ?thesis using wf(1) by (simp add: trans_wf_def)
  qed
  then show ?case using ar hb by simp
next
  case (crashed m m' k)
  let ?y = "commit (m'\<lparr>mpower := k\<rparr>)"
  have st: "start (mlog m') = start (mlog m)" "lsize (mlog m') = lsize (mlog m)"
    using crashed.hyps(2) by (simp_all add: staged_def)
  have e: "after_crash k m' = recover_from_log (reboot ?y)" by (simp add: after_crash_def)
  have sy: "start (mlog ?y) = start (mlog m)" "lsize (mlog ?y) = lsize (mlog m)"
    using commit_area[of "m'\<lparr>mpower := k\<rparr>"] st by simp_all
  have hb: "headblk (after_crash k m') = headblk ?y"
    unfolding e using recover_clears(2)[of ?y] by (simp add: headblk_def)
  have "area_ok (after_crash k m')"
    unfolding e using recover_clears(2,3)[of ?y] sy crashed.IH by (simp add: area_ok_def)
  then show ?case unfolding hb unfolding e using recover_clears(1)[of ?y] by simp
qed

lemma atomic_commit:
  fixes k :: enat
  assumes wf: "trans_wf m"
  shows "(k \<le> enat (nat (lh_n (lh (mlog m)))) \<longrightarrow>
            (\<forall>i < nat (lh_n (lh (mlog m))). mdisk (after_crash k m) (home m i) = mdisk m (home m i)))
       \<and> (enat (nat (lh_n (lh (mlog m)))) < k \<longrightarrow>
            (\<forall>i < nat (lh_n (lh (mlog m))). mdisk (after_crash k m) (home m i) = mcache m (home m i)))"
proof (cases "0 < lh_n (lh (mlog m))")
  case False
  then have "nat (lh_n (lh (mlog m))) = 0" by simp
  then show ?thesis by simp
next
  case True
  let ?n = "nat (lh_n (lh (mlog m)))"
  let ?x = "commit (m\<lparr>mpower := k\<rparr>)"
  let ?H = "headblk m"
  note bl = trans_wf_blocks[OF wf]
  note cd = commit_disk[OF wf True, of k]
  have hx: "headblk ?x = ?H" and lx: "logblk ?x = logblk m" using cd(3,4) by simp_all
  have nb: "0 \<le> lh_n (lh (mlog m))" "lh_n (lh (mlog m)) \<le> LOGSIZE"
    using wf by (simp_all add: trans_wf_def log_wf_def)
  have clear0: "sint (get32 (mdisk m ?H) 0) = 0" using wf by (simp add: trans_wf_def)
  show ?thesis
  proof (intro conjI impI allI)
    fix i assume kn: "k \<le> enat ?n" and i: "i < ?n"
    have dh: "mdisk ?x ?H = mdisk m ?H" and dd: "mdisk ?x (home m i) = mdisk m (home m i)"
      using cd(1) kn i by simp_all
    have "sint (get32 (mdisk ?x (headblk ?x)) 0) = 0" using dh hx clear0 by simp
    moreover have "home m i \<noteq> headblk ?x" using bl(1) i hx by simp
    ultimately have "mdisk (recover_from_log (reboot ?x)) (home m i) = mdisk ?x (home m i)"
      by (rule recover_clear)
    then show "mdisk (after_crash k m) (home m i) = mdisk m (home m i)"
      using dd by (simp add: after_crash_def)
  next
    fix i assume nk: "enat ?n < k" and i: "i < ?n"
    have logs: "\<forall>t<?n. mdisk ?x (logblk m t) = mcache m (home m t)"
      using cd(2) nk by simp
    have alt: "(get32 (mdisk ?x ?H) 0 = word_of_int (lh_n (lh (mlog m)))
                \<and> (\<forall>i<?n. get32 (mdisk ?x ?H) (Suc i) = home m i))
              \<or> (get32 (mdisk ?x ?H) 0 = 0 \<and> (\<forall>t<?n. mdisk ?x (home m t) = mcache m (home m t)))"
      using cd(2) nk by simp
    from alt show "mdisk (after_crash k m) (home m i) = mcache m (home m i)"
    proof
      assume a: "get32 (mdisk ?x ?H) 0 = word_of_int (lh_n (lh (mlog m)))
                \<and> (\<forall>i<?n. get32 (mdisk ?x ?H) (Suc i) = home m i)"
      have cnt: "get32 (mdisk ?x (headblk ?x)) 0 = word_of_int (lh_n (lh (mlog m)))"
        using a hx by simp
      have blk: "\<forall>i < ?n. get32 (mdisk ?x (headblk ?x)) (Suc i) = home m i"
        using a hx by simp
      have sd: "\<forall>s t. s < ?n \<and> t < ?n \<longrightarrow> logblk ?x t \<noteq> home m s"
        using bl(2) lx by metis
      have hh: "\<forall>t < ?n. home m t \<noteq> headblk ?x" using bl(1) hx by simp
      have "mdisk (recover_from_log (reboot ?x)) (home m i) = mdisk ?x (logblk ?x i)"
        using recover_replay[OF cnt nb blk sd bl(4) hh i] .
      then show ?thesis using logs i lx by (simp add: after_crash_def)
    next
      assume a: "get32 (mdisk ?x ?H) 0 = 0 \<and> (\<forall>t<?n. mdisk ?x (home m t) = mcache m (home m t))"
      have "sint (get32 (mdisk ?x (headblk ?x)) 0) = 0" using a hx by simp
      moreover have "home m i \<noteq> headblk ?x" using bl(1) i hx by simp
      ultimately have "mdisk (recover_from_log (reboot ?x)) (home m i) = mdisk ?x (home m i)"
        by (rule recover_clear)
      then show ?thesis using a i by (simp add: after_crash_def)
    qed
  qed
qed

lemma after_crash_head: "headblk (after_crash k m) = headblk m"
  using recover_clears(2)[of "commit (m\<lparr>mpower := k\<rparr>)"] commit_area(1)[of "m\<lparr>mpower := k\<rparr>"]
  by (simp add: after_crash_def headblk_def)

lemma commit_head: "headblk (commit m) = headblk m"
  using commit_area(1)[of m] by (simp add: headblk_def)


text \<open>
  Claim C1 (crash atomicity of the log).  Take any state \<open>m\<close> the log reaches between
  transactions, by boots, commits and crashes with recovery in any number and order, and
  any transaction staged from it, \<open>m'\<close>.  Let \<open>commit\<close> run and let the power fail after any
  number \<open>k\<close> of its block writes (\<open>\<infinity>\<close>: not at all).  After the reboot and
  \<open>recover_from_log\<close>, every home block of the transaction holds the content the disk had
  before the transaction when the header write, the write number \<open>lh.n + 1\<close>, did not
  happen, and every home block holds its new content from the cache when it did.  The
  header on the disk is clear again after the recovery and after a commit that runs to
  its end, which is what the next transaction starts from.
\<close>

theorem log_crash_atomicity:
  fixes k :: enat
  assumes r: "reach m" and s: "staged m m'"
  shows "(k \<le> enat (nat (lh_n (lh (mlog m')))) \<longrightarrow>
            (\<forall>i < nat (lh_n (lh (mlog m'))). mdisk (after_crash k m') (home m' i) = mdisk m (home m' i)))
       \<and> (enat (nat (lh_n (lh (mlog m')))) < k \<longrightarrow>
            (\<forall>i < nat (lh_n (lh (mlog m'))). mdisk (after_crash k m') (home m' i) = mcache m' (home m' i)))
       \<and> sint (get32 (mdisk (after_crash k m') (headblk m')) 0) = 0
       \<and> sint (get32 (mdisk (commit (m'\<lparr>mpower := \<infinity>\<rparr>)) (headblk m')) 0) = 0"
proof -
  from reach_clear[OF r] have c: "sint (get32 (mdisk m (headblk m)) 0) = 0" and a: "area_ok m"
    by simp_all
  note wf = staged_trans_wf[OF c a s]
  have d: "mdisk m' = mdisk m" using s by (simp add: staged_def)
  note at = atomic_commit[OF wf(1), of k, unfolded d]
  have h1: "headblk (after_crash k m') = headblk m'" by (rule after_crash_head)
  have h2: "headblk (commit (m'\<lparr>mpower := \<infinity>\<rparr>)) = headblk m'"
    using commit_head[of "m'\<lparr>mpower := \<infinity>\<rparr>"] by (simp add: headblk_def)
  have c1: "sint (get32 (mdisk (after_crash k m') (headblk m')) 0) = 0"
    using reach_clear[OF reach.crashed[OF r s, of k]] h1 by simp
  have c2: "sint (get32 (mdisk (commit (m'\<lparr>mpower := \<infinity>\<rparr>)) (headblk m')) 0) = 0"
    using reach_clear[OF reach.committed[OF r s]] h2 by simp
  show ?thesis using at c1 c2 by blast
qed


text \<open>
  The theorem at the transaction of blocks 33 and 34, staged after a boot from the blank
  disk: a crash after one write leaves both blocks old; a crash after four writes, and no
  crash at all, leave them both new.
\<close>

lemma ex_boot_disk: "mdisk (recover_from_log (reboot ex_machine)) = (\<lambda>_ _. 0)"
proof -
  have z: "set32 (\<lambda>_. 0) 0 0 = (\<lambda>_. 0)" by (simp add: set32_def fun_eq_iff)
  have b: "reboot ex_machine =
      \<lparr>mdisk = \<lambda>_ _. 0, mcache = \<lambda>_ _. 0, mpins = \<lambda>_. 0,
       mlog = \<lparr>start = 2, lsize = 30, outstanding = 0, committing = 0, ldev = 1,
               lh = \<lparr>lh_n = 0, lh_block = replicate 30 0\<rparr>\<rparr>,
       mpower = \<infinity>\<rparr>" (is "_ = ?b")
    by (simp add: reboot_def ex_machine_def ex_log_def LOGSIZE_def MAXOPBLOCKS_def)
  have r: "read_head ?b = ?b" by (simp add: read_head_def Let_def bread_def headblk_def get32_def)
  have i: "install_trans 1 ?b = ?b" by (simp add: install_trans_def)
  have s: "set_lh_n 0 ?b = ?b" by (simp add: set_lh_n_def)
  have w: "mdisk (write_head ?b) = (\<lambda>_ _. 0)"
    by (simp add: write_head_def Let_def bread_def bwrite_def headblk_def z fun_eq_iff)
  show ?thesis unfolding recover_from_log_def b r i s by (rule w)
qed

theorem log_crash_atomicity_witness:
  "reach (recover_from_log (reboot ex_machine))
   \<and> staged (recover_from_log (reboot ex_machine)) ex_machine
   \<and> mdisk (after_crash 1 ex_machine) 33 = (\<lambda>_. 0) \<and> mdisk (after_crash 1 ex_machine) 34 = (\<lambda>_. 0)
   \<and> mdisk (after_crash 4 ex_machine) 33 = (\<lambda>_. 1) \<and> mdisk (after_crash 4 ex_machine) 34 = (\<lambda>_. 2)
   \<and> mdisk (after_crash \<infinity> ex_machine) 33 = (\<lambda>_. 1)
   \<and> mdisk (after_crash \<infinity> ex_machine) 34 = (\<lambda>_. 2)
   \<and> sint (get32 (mdisk (after_crash 4 ex_machine) 2) 0) = 0"
proof -
  let ?m = "recover_from_log (reboot ex_machine)"
  have ar: "area_ok ex_machine" by (simp add: area_ok_def ex_machine_def ex_log_def)
  have od: "log_on_disk_ok ex_machine"
    by (simp add: log_on_disk_ok_def ex_machine_def get32_def LOGSIZE_def MAXOPBLOCKS_def)
  have r: "reach ?m" using ar od by (rule reach.boot)
  have st: "start (mlog ?m) = 2" "lsize (mlog ?m) = 30"
    using recover_clears(2,3)[of ex_machine] by (simp_all add: ex_machine_def ex_log_def)
  have s: "staged ?m ex_machine"
    unfolding staged_def ex_boot_disk st
    by (simp add: log_wf_def ex_machine_def ex_log_def LOGSIZE_def MAXOPBLOCKS_def)
  have n: "nat (lh_n (lh (mlog ex_machine))) = 2" by (simp add: ex_machine_def ex_log_def)
  have h: "home ex_machine 0 = 33" "home ex_machine 1 = 34"
    by (simp_all add: home_def ex_machine_def ex_log_def)
  have hb: "headblk ex_machine = 2" by (simp add: headblk_def ex_machine_def ex_log_def)
  have d: "mdisk ?m 33 = (\<lambda>_. 0)" "mdisk ?m 34 = (\<lambda>_. 0)"
    by (simp_all add: ex_boot_disk)
  have d': "mcache ex_machine 33 = (\<lambda>_. 1)" "mcache ex_machine 34 = (\<lambda>_. 2)"
    by (simp_all add: ex_machine_def)
  have k1: "(1 :: enat) \<le> enat 2" by (simp add: one_enat_def)
  have k4: "enat 2 < (4 :: enat)" by (simp add: numeral_eq_enat)
  have ki: "enat 2 < (\<infinity> :: enat)" by simp
  note t1 = log_crash_atomicity[OF r s, of 1, unfolded n]
  note t4 = log_crash_atomicity[OF r s, of 4, unfolded n hb]
  note ti = log_crash_atomicity[OF r s, of \<infinity>, unfolded n]
  have a: "\<forall>i<2. mdisk (after_crash 1 ex_machine) (home ex_machine i) = mdisk ?m (home ex_machine i)"
    using t1 k1 by blast
  have b: "\<forall>i<2. mdisk (after_crash 4 ex_machine) (home ex_machine i) = mcache ex_machine (home ex_machine i)"
    using t4 k4 by blast
  have c: "\<forall>i<2. mdisk (after_crash \<infinity> ex_machine) (home ex_machine i) = mcache ex_machine (home ex_machine i)"
    using ti ki by blast
  have e: "sint (get32 (mdisk (after_crash 4 ex_machine) 2) 0) = 0" using t4 by blast
  have "mdisk (after_crash 1 ex_machine) 33 = (\<lambda>_. 0)" using a[rule_format, of 0] h d by simp
  moreover have "mdisk (after_crash 1 ex_machine) 34 = (\<lambda>_. 0)" using a[rule_format, of 1] h d by simp
  moreover have "mdisk (after_crash 4 ex_machine) 33 = (\<lambda>_. 1)" using b[rule_format, of 0] h d' by simp
  moreover have "mdisk (after_crash 4 ex_machine) 34 = (\<lambda>_. 2)" using b[rule_format, of 1] h d' by simp
  moreover have "mdisk (after_crash \<infinity> ex_machine) 33 = (\<lambda>_. 1)" using c[rule_format, of 0] h d' by simp
  moreover have "mdisk (after_crash \<infinity> ex_machine) 34 = (\<lambda>_. 2)" using c[rule_format, of 1] h d' by simp
  ultimately show ?thesis using r s e by blast
qed

section \<open>Properties of readi and writei\<close>

lemma bmap_keeps:
  "bmap ip bn fs = Inr (a, ip1, fs1) \<Longrightarrow>
     inum ip1 = inum ip \<and> isize ip1 = isize ip \<and> itype ip1 = itype ip \<and> idev ip1 = idev ip"
  by (auto simp: bmap_def Let_def split: if_splits prod.splits sum.splits)

lemma frag_step_le:
  assumes "tot < n"
  shows "tot + frag n tot off \<le> n"
proof -
  from frag_pos[OF assms, of off] have p: "unat (frag n tot off) \<le> unat (n - tot)" by simp
  have q: "unat (n - tot) = unat n - unat tot"
    using assms by (simp add: unat_sub word_le_nat_alt word_less_nat_alt)
  have r: "unat tot < unat n" using assms by (simp add: word_less_nat_alt)
  have s: "unat tot + unat (frag n tot off) \<le> unat n" using p q r by simp
  moreover have "unat n < 2 ^ 32" using unsigned_less[of n] by simp
  ultimately have "unat (tot + frag n tot off) = unat tot + unat (frag n tot off)"
    by (simp add: unat_word_ariths)
  then show ?thesis using s by (simp add: word_le_nat_alt)
qed

lemma writei_loop_done:
  "\<not> tot < n \<Longrightarrow> writei_loop us ok src n ip fs tot off = Inr (tot, off, ip, fs)"
  by (subst writei_loop.simps) simp

lemma writei_loop_step:
  "tot < n \<Longrightarrow> writei_loop us ok src n ip fs tot off =
     (case bmap ip (off div of_nat BSIZE) fs of
           Inl e \<Rightarrow> Inl e
         | Inr (addr, ip1, fs1) \<Rightarrow>
             if addr = 0 then Inr (tot, off, ip1, fs1)
             else if us \<noteq> 0 \<and> \<not> ok tot then Inr (tot, off, ip1, fs1)
             else
               (case log_block addr
                       (fs1\<lparr>fblocks := (fblocks fs1)(addr :=
                              put_bytes (fblocks fs1 addr) (unat (off mod of_nat BSIZE))
                                (unat (frag n tot off)) (\<lambda>j. src (unat tot + j)))\<rparr>) of
                  Inl e \<Rightarrow> Inl e
                | Inr fs2 \<Rightarrow>
                    writei_loop us ok src n ip1 fs2
                      (tot + frag n tot off) (off + frag n tot off)))"
  by (subst writei_loop.simps) simp

lemma readi_loop_done:
  "\<not> tot < n \<Longrightarrow> readi_loop us ok n ip fs tot off out = Inr (tot, out, ip, fs)"
  by (subst readi_loop.simps) simp

lemma readi_loop_step:
  "tot < n \<Longrightarrow> readi_loop us ok n ip fs tot off out =
        (case bmap ip (off div of_nat BSIZE) fs of
           Inl e \<Rightarrow> Inl e
         | Inr (addr, ip1, fs1) \<Rightarrow>
             if addr = 0 then Inr (tot, out, ip1, fs1)
             else if us \<noteq> 0 \<and> \<not> ok tot then Inr (- 1, out, ip1, fs1)
             else readi_loop us ok n ip1 fs1 (tot + frag n tot off) (off + frag n tot off)
                    (out @ map (\<lambda>j. fblocks fs1 addr (unat (off mod of_nat BSIZE) + j))
                             [0..<unat (frag n tot off)]))"
  by (subst readi_loop.simps) simp

lemma writei_loop_inv:
  "writei_loop us ok src n ip fs tot off = Inr (tot', off', ip', fs') \<Longrightarrow> tot \<le> n \<Longrightarrow>
     tot' \<le> n \<and> off' - tot' = off - tot \<and> inum ip' = inum ip \<and> isize ip' = isize ip"
proof (induction us ok src n ip fs tot off rule: writei_loop.induct)
  case (1 us ok src n ip fs tot off)
  show ?case
  proof (cases "tot < n")
    case False
    then show ?thesis using "1.prems" by (simp add: writei_loop_done)
  next
    case True
    show ?thesis
    proof (cases "bmap ip (off div of_nat BSIZE) fs")
      case (Inl e)
      then show ?thesis using "1.prems" True by (simp add: writei_loop_step)
    next
      case (Inr t)
      obtain addr ip1 fs1 where t: "t = (addr, ip1, fs1)" by (cases t) auto
      note bm = Inr[unfolded t]
      note k = bmap_keeps[OF bm]
      show ?thesis
      proof (cases "addr = 0 \<or> (us \<noteq> 0 \<and> \<not> ok tot)")
        case True
        then show ?thesis using "1.prems" \<open>tot < n\<close> bm k
          by (auto simp: writei_loop_step split: if_splits)
      next
        case False
        let ?m = "frag n tot off"
        let ?fs = "fs1\<lparr>fblocks := (fblocks fs1)(addr :=
                           put_bytes (fblocks fs1 addr) (unat (off mod of_nat BSIZE))
                             (unat ?m) (\<lambda>j. src (unat tot + j)))\<rparr>"
        show ?thesis
        proof (cases "log_block addr ?fs")
          case (Inl e)
          then show ?thesis using "1.prems"(1) False \<open>tot < n\<close> bm
            by (auto simp: writei_loop_step)
        next
          case (Inr fs2)
          have e: "writei_loop us ok src n ip fs tot off
                     = writei_loop us ok src n ip1 fs2 (tot + ?m) (off + ?m)"
            using False \<open>tot < n\<close> bm Inr by (auto simp: writei_loop_step)
          have ih: "tot' \<le> n \<and> off' - tot' = (off + ?m) - (tot + ?m)
                      \<and> inum ip' = inum ip1 \<and> isize ip' = isize ip1"
            using "1.IH"[OF \<open>tot < n\<close> bm refl refl _ _ Inr _ frag_step_le[OF \<open>tot < n\<close>]]
              False "1.prems"(1) e
            by auto
          then show ?thesis using k by simp
        qed
      qed
    qed
  qed
qed

lemma writei_guard:
  "isize ip < off \<or> off + n < off \<or> MAXFILE * BSIZE < unat (off + n)
     \<Longrightarrow> writei us ok src ip fs off n = Inr (- 1, ip, fs)"
  by (auto simp: writei_def)

lemma readi_guard:
  "isize ip < off \<or> off + n < off \<Longrightarrow> readi us ok ip fs off n = Inr (0, [], ip, fs)"
  by (auto simp: readi_def)

lemma readi_clamp:
  assumes "\<not> isize ip < off" "\<not> off + n < off" "isize ip < off + n"
  shows "readi us ok ip fs off n = readi us ok ip fs off (isize ip - off)"
proof -
  have "off + (isize ip - off) = isize ip" by simp
  then show ?thesis using assms by (simp add: readi_def Let_def)
qed

lemma max_bytes: "MAXFILE * BSIZE = 274432"
  by (simp add: MAXFILE_def BSIZE_def NDIRECT_def NINDIRECT_def)

lemma block_index:
  assumes "unat (off :: uint) < MAXFILE * BSIZE"
  shows "unat (off div of_nat BSIZE) < MAXFILE"
proof -
  have "unat (off div 1024) = unat off div 1024" by (simp add: unat_div)
  then show ?thesis using assms by (simp add: BSIZE_def MAXFILE_def NDIRECT_def NINDIRECT_def)
qed

lemma sint_file_size: "unat (w :: uint) \<le> 274432 \<Longrightarrow> sint w = int (unat w)"
proof -
  assume a: "unat w \<le> 274432"
  have "int (unat w) \<le> 274432" using a by linarith
  then have b: "uint w \<le> 274432" by simp
  have c: "0 \<le> uint w" by simp
  have p: "(2::int) ^ 31 = 2147483648" by simp
  have "signed_take_bit 31 (uint w) = uint w"
  proof (rule signed_take_bit_int_eq_self)
    show "- (2 ^ 31) \<le> uint w" unfolding p using c by linarith
    show "uint w < 2 ^ 31" unfolding p using b by linarith
  qed
  then show ?thesis by (simp add: sint_uint)
qed

lemma unat_add_bounded:
  "(off::uint) \<le> off + n \<Longrightarrow> t \<le> n \<Longrightarrow> unat (off + t) = unat off + unat t"
proof -
  assume a: "off \<le> off + n" "t \<le> n"
  have "unat off + unat n < 2 ^ 32" using a(1) by (simp add: no_olen_add_nat)
  moreover have "unat t \<le> unat n" using a(2) by (simp add: word_le_nat_alt)
  ultimately have "unat off + unat t < 2 ^ LENGTH(32)" by simp
  then show ?thesis by (simp only: unat_add_lem)
qed

lemma unat_add_no_wrap: "(off::uint) \<le> off + n \<Longrightarrow> unat (off + n) = unat off + unat n"
  by (rule unat_add_bounded[OF _ order_refl])

lemma unat_div_BSIZE: "unat ((off :: uint) div of_nat BSIZE) = unat off div BSIZE"
  by (simp add: BSIZE_def unat_div)

lemma unat_mod_BSIZE: "unat ((off :: uint) mod of_nat BSIZE) = unat off mod BSIZE"
  by (simp add: BSIZE_def unat_mod)

lemma bmap_mapped:
  assumes "unat bn < MAXFILE" "blk_of ip fs (unat bn) \<noteq> 0"
  shows "bmap ip bn fs = Inr (blk_of ip fs (unat bn), ip, fs)"
proof (cases "unat bn < NDIRECT")
  case True
  then show ?thesis using assms by (simp add: bmap_def blk_of_def)
next
  case False
  then have "(12 :: uint) \<le> bn" by (simp add: word_le_nat_alt NDIRECT_def)
  then have u: "unat (bn - 12) = unat bn - 12" by (simp add: unat_sub)
  then have "unat (bn - of_nat NDIRECT) < NINDIRECT"
    using assms False by (simp add: MAXFILE_def NDIRECT_def)
  moreover have "unat (bn - of_nat NDIRECT) = unat bn - NDIRECT" using u by (simp add: NDIRECT_def)
  ultimately show ?thesis using False assms(2)
    by (auto simp: bmap_def bmap_entry_def blk_of_def Let_def split: if_splits)
qed

lemma block_split:
  fixes a j :: nat
  assumes lt: "a mod 1024 + j < 1024"
  shows "(j + a) div 1024 = a div 1024" "(j + a) mod 1024 = a mod 1024 + j"
proof -
  define q r where "q = a div 1024" and "r = a mod 1024"
  have a: "a = r + q * 1024" by (simp add: q_def r_def)
  have l: "r + j < 1024" using lt by (simp add: r_def)
  have e: "j + a = (r + j) + q * 1024" using a by simp
  have "(j + a) div 1024 = (r + j) div 1024 + q" unfolding e by simp
  then show "(j + a) div 1024 = a div 1024" using l by (simp add: q_def)
  have "(j + a) mod 1024 = (r + j) mod 1024" unfolding e by simp
  then show "(j + a) mod 1024 = a mod 1024 + j" using l by (simp add: r_def)
qed

lemma map_shift:
  "(\<And>j. j < m \<Longrightarrow> g (j + a) = f j) \<Longrightarrow> map f [0..<m] = map g [a..<a + m]"
proof -
  assume h: "\<And>j. j < m \<Longrightarrow> g (j + a) = f j"
  have "[a..<a + m] = map (\<lambda>j. j + a) [0..<m]" by (simp add: map_add_upt add.commute)
  then have "map g [a..<a + m] = map (\<lambda>j. g (j + a)) [0..<m]" by (simp add: comp_def)
  also have "\<dots> = map f [0..<m]" by (rule map_cong) (use h in simp_all)
  finally show ?thesis by simp
qed

lemma frag_bytes:
  assumes m: "unat (frag n tot off) \<le> BSIZE - unat off mod BSIZE"
  shows "map (\<lambda>j. fblocks fs (blk_of ip fs (unat off div BSIZE)) (unat off mod BSIZE + j))
           [0..<unat (frag n tot off)]
         = map (file_byte ip fs) [unat off..<unat off + unat (frag n tot off)]"
proof (rule map_shift)
  fix j assume j: "j < unat (frag n tot off)"
  have lt: "unat off mod 1024 + j < 1024" using j m by (simp add: BSIZE_def)
  show "file_byte ip fs (j + unat off)
        = fblocks fs (blk_of ip fs (unat off div BSIZE)) (unat off mod BSIZE + j)"
    unfolding file_byte_def BSIZE_def block_split[OF lt] ..
qed

lemma frag_in_block: "tot < n \<Longrightarrow> unat (frag n tot off) \<le> BSIZE - unat off mod BSIZE"
proof -
  assume a: "tot < n"
  have b: "unat (off mod 1024) < 1024" by (simp add: unat_mod)
  then have "unat (1024 - off mod 1024) = 1024 - unat (off mod 1024)"
    by (simp add: unat_sub word_le_nat_alt)
  moreover have "frag n tot off \<le> 1024 - off mod 1024" by (simp add: frag_def BSIZE_def)
  ultimately show ?thesis by (simp add: word_le_nat_alt BSIZE_def unat_mod)
qed

lemma readi_loop_mapped:
  assumes mp: "file_mapped ip fs" and sz: "unat (isize ip) \<le> MAXFILE * BSIZE"
    and cp: "us = 0 \<or> (\<forall>t. ok t)"
  shows "tot \<le> n \<Longrightarrow> unat off + unat (n - tot) \<le> unat (isize ip) \<Longrightarrow>
     readi_loop us ok n ip fs tot off out
       = Inr (n, out @ map (file_byte ip fs) [unat off..<unat off + unat (n - tot)], ip, fs)"
proof (induction "unat (n - tot)" arbitrary: tot off out rule: less_induct)
  case less
  show ?case
  proof (cases "tot < n")
    case False
    then have "tot = n" using less.prems(1) by simp
    then show ?thesis by (simp add: readi_loop_done)
  next
    case True
    let ?m = "frag n tot off"
    from frag_pos[OF True, of off] have m: "0 < unat ?m" "unat ?m \<le> unat (n - tot)" by simp_all
    have lt: "unat off < unat (isize ip)" using m less.prems(2) by simp
    let ?bn = "off div of_nat BSIZE"
    have bn: "unat ?bn < MAXFILE" using lt sz by (intro block_index) simp
    have "unat ?bn * BSIZE \<le> unat off" by (simp add: unat_div_BSIZE)
    then have nz: "blk_of ip fs (unat ?bn) \<noteq> 0"
      using mp bn lt by (simp add: file_mapped_def)
    note bm = bmap_mapped[OF bn nz]
    let ?out = "out @ map (\<lambda>j. fblocks fs (blk_of ip fs (unat ?bn)) (unat (off mod of_nat BSIZE) + j))
                        [0..<unat ?m]"
    have e: "readi_loop us ok n ip fs tot off out
               = readi_loop us ok n ip fs (tot + ?m) (off + ?m) ?out"
      using nz cp True by (auto simp: readi_loop_step bm)
    have t: "unat (tot + ?m) = unat tot + unat ?m"
    proof -
      have "unat (n - tot) = unat n - unat tot"
        using True by (simp add: unat_sub word_le_nat_alt word_less_nat_alt)
      moreover have "unat tot < unat n" using True by (simp add: word_less_nat_alt)
      moreover have "unat n < 2 ^ 32" using unsigned_less[of n] by simp
      ultimately show ?thesis using m(2) by (simp add: unat_word_ariths)
    qed
    have o: "unat (off + ?m) = unat off + unat ?m"
      using less.prems(2) m(2) sz by (simp add: unat_word_ariths max_bytes)
    have d: "n - (tot + ?m) = (n - tot) - ?m" by simp
    have r: "unat (n - (tot + ?m)) = unat (n - tot) - unat ?m"
      unfolding d using m(2) by (simp add: unat_sub word_le_nat_alt)
    have ih: "readi_loop us ok n ip fs (tot + ?m) (off + ?m) ?out
        = Inr (n, ?out @ map (file_byte ip fs)
                 [unat (off + ?m)..<unat (off + ?m) + unat (n - (tot + ?m))], ip, fs)"
    proof (rule less.hyps)
      show "unat (n - (tot + ?m)) < unat (n - tot)" using r m by simp
      show "tot + ?m \<le> n" by (rule frag_step_le[OF True])
      show "unat (off + ?m) + unat (n - (tot + ?m)) \<le> unat (isize ip)"
        using o r m(2) less.prems(2) by simp
    qed
    have fb: "map (\<lambda>j. fblocks fs (blk_of ip fs (unat ?bn)) (unat (off mod of_nat BSIZE) + j))
                [0..<unat ?m]
              = map (file_byte ip fs) [unat off..<unat off + unat ?m]"
      using frag_bytes[OF frag_in_block[OF True, of off], of fs ip]
      by (simp add: unat_div_BSIZE unat_mod_BSIZE)
    have "[unat off..<(unat off + unat ?m) + (unat (n - tot) - unat ?m)]
               = [unat off..<unat off + unat ?m]
                 @ [unat off + unat ?m..<(unat off + unat ?m) + (unat (n - tot) - unat ?m)]"
      by (rule upt_add_eq_append) simp
    then have sp: "[unat off..<unat off + unat (n - tot)]
               = [unat off..<unat off + unat ?m]
                 @ [unat off + unat ?m..<unat off + unat ?m + (unat (n - tot) - unat ?m)]"
      using m(2) by simp
    have "readi_loop us ok n ip fs tot off out
        = Inr (n, ?out @ map (file_byte ip fs)
                 [unat (off + ?m)..<unat (off + ?m) + unat (n - (tot + ?m))], ip, fs)"
      using e ih by (rule trans)
    then show ?thesis unfolding fb o r sp by simp
  qed
qed

lemma readi_mapped:
  assumes mp: "file_mapped ip fs" and sz: "unat (isize ip) \<le> MAXFILE * BSIZE"
    and cp: "ud = 0 \<or> (\<forall>t. dst_ok t)"
    and g: "off \<le> isize ip" "off \<le> off + n"
  shows "readi ud dst_ok ip fs off n
           = Inr (int (min (unat n) (unat (isize ip) - unat off)),
                  map (file_byte ip fs)
                    [unat off..<unat off + min (unat n) (unat (isize ip) - unat off)], ip, fs)"
proof -
  define n1 where "n1 = (if isize ip < off + n then isize ip - off else n)"
  have a: "unat (off + n) = unat off + unat n" using g(2) by (rule unat_add_no_wrap)
  have s: "unat (isize ip - off) = unat (isize ip) - unat off" using g(1) by (simp add: unat_sub)
  have ol: "unat off \<le> unat (isize ip)" using g(1) by (simp add: word_le_nat_alt)
  have k: "unat n1 = min (unat n) (unat (isize ip) - unat off)"
    using a s ol by (auto simp: n1_def word_less_nat_alt)
  have b: "unat off + unat (n1 - 0) \<le> unat (isize ip)" using k ol by simp
  have l: "readi_loop ud dst_ok n1 ip fs 0 off []
             = Inr (n1, [] @ map (file_byte ip fs) [unat off..<unat off + unat (n1 - 0)], ip, fs)"
    by (rule readi_loop_mapped[OF mp sz cp _ b]) simp
  have "unat n1 \<le> 274432" using b sz by (simp add: max_bytes)
  then have si: "sint n1 = int (unat n1)" by (rule sint_file_size)
  have gd: "\<not> (isize ip < off \<or> off + n < off)" using g by (simp add: not_less)
  have "readi ud dst_ok ip fs off n
          = (case readi_loop ud dst_ok n1 ip fs 0 off [] of
               Inl e \<Rightarrow> Inl e
             | Inr (tot, out, ip1, fs1) \<Rightarrow> Inr (sint tot, out, ip1, fs1))"
    using gd unfolding readi_def n1_def Let_def by simp
  then show ?thesis unfolding l by (simp add: si k)
qed


text \<open>
  Claim C9 (read/write asymmetry at the inode interface).  When the offset lies past the
  end of the file, or \<open>off + n\<close> wraps around, \<open>readi\<close> returns 0, copies nothing and
  changes nothing, while \<open>writei\<close> returns \<open>-1\<close>.  When the range starts inside the file and
  ends past its end, \<open>readi\<close> reads as if it had been asked for \<open>ip->size - off\<close> bytes.
  What a read in range returns, for a file within \<open>MAXFILE\<close> blocks that has a block
  wherever it has content and a destination that takes the copies: the count
  \<open>min(n, ip->size - off)\<close>, never an error, and that many bytes of the file from
  \<open>off\<close> on, with the inode and the disk unchanged.
\<close>

theorem readi_writei_asymmetry:
  "(isize ip < off \<or> off + n < off \<longrightarrow>
      readi ud dst_ok ip fs off n = Inr (0, [], ip, fs)
      \<and> writei us src_ok src ip fs off n = Inr (- 1, ip, fs))
   \<and> (\<not> isize ip < off \<and> \<not> off + n < off \<and> isize ip < off + n \<longrightarrow>
        readi ud dst_ok ip fs off n = readi ud dst_ok ip fs off (isize ip - off))
   \<and> (file_mapped ip fs \<and> unat (isize ip) \<le> MAXFILE * BSIZE \<and> off \<le> isize ip \<and> off \<le> off + n
        \<and> (ud = 0 \<or> (\<forall>t. dst_ok t)) \<longrightarrow>
        readi ud dst_ok ip fs off n
          = Inr (int (min (unat n) (unat (isize ip) - unat off)),
                 map (file_byte ip fs)
                   [unat off..<unat off + min (unat n) (unat (isize ip) - unat off)], ip, fs))"
proof (intro conjI impI)
  assume "isize ip < off \<or> off + n < off"
  then show "readi ud dst_ok ip fs off n = Inr (0, [], ip, fs)" by (rule readi_guard)
next
  assume "isize ip < off \<or> off + n < off"
  then have "isize ip < off \<or> off + n < off \<or> MAXFILE * BSIZE < unat (off + n)" by blast
  then show "writei us src_ok src ip fs off n = Inr (- 1, ip, fs)" by (rule writei_guard)
next
  assume "\<not> isize ip < off \<and> \<not> off + n < off \<and> isize ip < off + n"
  then show "readi ud dst_ok ip fs off n = readi ud dst_ok ip fs off (isize ip - off)"
    by (simp add: readi_clamp)
next
  assume a: "file_mapped ip fs \<and> unat (isize ip) \<le> MAXFILE * BSIZE \<and> off \<le> isize ip
        \<and> off \<le> off + n \<and> (ud = 0 \<or> (\<forall>t. dst_ok t))"
  show "readi ud dst_ok ip fs off n
          = Inr (int (min (unat n) (unat (isize ip) - unat off)),
                 map (file_byte ip fs)
                   [unat off..<unat off + min (unat n) (unat (isize ip) - unat off)], ip, fs)"
    by (rule readi_mapped) (use a in blast)+
qed

text \<open>
  The theorem at the example file of 10 bytes: offset 11 is out of range, and a read of 100
  bytes at offset 4 is a read of 6 bytes, which returns the bytes 4 to 9 of the file.
\<close>

theorem readi_writei_asymmetry_witness:
  "readi 1 (\<lambda>_. False) ex_file ex_fsys 11 1 = Inr (0, [], ex_file, ex_fsys)
   \<and> writei 1 (\<lambda>_. False) (\<lambda>_. 0) ex_file ex_fsys 11 1 = Inr (- 1, ex_file, ex_fsys)
   \<and> readi 0 (\<lambda>_. True) ex_file ex_fsys 4 100 = readi 0 (\<lambda>_. True) ex_file ex_fsys 4 6
   \<and> readi 0 (\<lambda>_. True) ex_file ex_fsys 4 100 = Inr (6, [4, 5, 6, 7, 8, 9], ex_file, ex_fsys)"
proof -
  have s: "isize ex_file = 10" by (simp add: ex_file_def)
  note a = readi_writei_asymmetry[of ex_file 11 1 1 "\<lambda>_. False" ex_fsys 1 "\<lambda>_. False" "\<lambda>_. 0"]
  note b = readi_writei_asymmetry[of ex_file 4 100 0 "\<lambda>_. True" ex_fsys 0 "\<lambda>_. True" "\<lambda>_. 0"]
  have m: "unat (isize ex_file) \<le> MAXFILE * BSIZE" by (simp add: s max_bytes)
  have fm: "file_mapped ex_file ex_fsys"
    unfolding file_mapped_def s
  proof (intro allI impI)
    fix bn assume "bn * BSIZE < unat (10 :: uint)"
    then have "bn = 0" by (simp add: BSIZE_def)
    then show "blk_of ex_file ex_fsys bn \<noteq> 0" by (simp add: blk_of_def ex_file_def NDIRECT_def)
  qed
  have fb: "\<And>k. k < 1024 \<Longrightarrow> file_byte ex_file ex_fsys k = of_nat k"
    by (simp add: file_byte_def ex_fsys_def BSIZE_def)
  have c1: "readi 1 (\<lambda>_. False) ex_file ex_fsys 11 1 = Inr (0, [], ex_file, ex_fsys)"
    and c2: "writei 1 (\<lambda>_. False) (\<lambda>_. 0) ex_file ex_fsys 11 1 = Inr (- 1, ex_file, ex_fsys)"
    using a by (simp_all add: s)
  have c3: "readi 0 (\<lambda>_. True) ex_file ex_fsys 4 100 = readi 0 (\<lambda>_. True) ex_file ex_fsys 4 6"
    using b by (simp add: s)
  have "readi 0 (\<lambda>_. True) ex_file ex_fsys 4 100
          = Inr (int (min (unat (100 :: uint)) (unat (isize ex_file) - unat (4 :: uint))),
                 map (file_byte ex_file ex_fsys)
                   [unat (4 :: uint)..<unat (4 :: uint)
                      + min (unat (100 :: uint)) (unat (isize ex_file) - unat (4 :: uint))],
                 ex_file, ex_fsys)"
    using b[THEN conjunct2, THEN conjunct2] fm m by (simp add: s)
  then have c4: "readi 0 (\<lambda>_. True) ex_file ex_fsys 4 100
                   = Inr (6, [4, 5, 6, 7, 8, 9], ex_file, ex_fsys)"
    by (simp add: s fb upt_rec)
  show ?thesis using c1 c2 c3 c4 by blast
qed

lemma iupdate_dinode:
  "iupdate ip fs = Inr fs' \<Longrightarrow> dinodes fs' (inum ip) = dinode_of ip"
  by (auto simp: iupdate_def log_block_def split: sum.splits)

lemma writei_result:
  assumes w: "writei us ok src ip fs off n = Inr (r, ip', fs')"
    and g: "\<not> isize ip < off" "\<not> off + n < off" "\<not> MAXFILE * BSIZE < unat (off + n)"
  shows "\<exists>tot fs1. tot \<le> n \<and> r = uint tot \<and> inum ip' = inum ip
           \<and> isize ip' = (if isize ip < off + tot then off + tot else isize ip)
           \<and> iupdate ip' fs1 = Inr fs'"
proof -
  from w g obtain tot off1 ip1 fs1 where
    l: "writei_loop us ok src n ip fs 0 off = Inr (tot, off1, ip1, fs1)"
    and r: "r = sint tot"
    and ip': "ip' = (if isize ip1 < off1 then ip1\<lparr>isize := off1\<rparr> else ip1)"
    and fs': "iupdate ip' fs1 = Inr fs'"
    by (auto simp: writei_def Let_def split: sum.splits prod.splits if_splits)
  from writei_loop_inv[OF l] have inv: "tot \<le> n" "off1 - tot = off" "inum ip1 = inum ip"
    "isize ip1 = isize ip" by simp_all
  have o: "off1 = off + tot" using inv(2) by (metis diff_add_cancel)
  have "off \<le> off + n" using g(2) by (simp add: not_less)
  then have "unat (off + n) = unat off + unat n" by (rule unat_add_no_wrap)
  then have "unat n \<le> 274432" using g(3) by (simp add: max_bytes)
  moreover have "unat tot \<le> unat n" using inv(1) by (simp add: word_le_nat_alt)
  ultimately have "sint tot = int (unat tot)" by (intro sint_file_size) simp
  then show ?thesis using inv o r ip' fs' by (intro exI[of _ tot] exI[of _ fs1]) auto
qed

text \<open>
  Claim C7 (maximum file size).  \<open>writei\<close> returns \<open>-1\<close> and leaves the inode and the disk
  as they are when \<open>off > ip->size\<close>, when \<open>off + n\<close> wraps around, and when \<open>off + n\<close>
  exceeds \<open>MAXFILE * BSIZE = (12 + 256) * 1024\<close>.  A write that returns \<open>n\<close> and ends
  past the old end sets the size to \<open>off + n\<close>; every write that passes the three checks
  and returns ends with \<open>iupdate\<close>, so that the on-disk inode is the inode in memory and
  carries the new size; and the size of a file that was within \<open>MAXFILE\<close> blocks stays
  within \<open>MAXFILE\<close> blocks.
\<close>

theorem writei_max_file_size:
  "(isize ip < off \<or> off + n < off \<or> MAXFILE * BSIZE < unat (off + n) \<longrightarrow>
      writei us src_ok src ip fs off n = Inr (- 1, ip, fs))
   \<and> (writei us src_ok src ip fs off n = Inr (r, ip', fs') \<longrightarrow>
        (r = uint n \<and> isize ip < off + n \<longrightarrow> isize ip' = off + n)
        \<and> (r \<noteq> - 1 \<longrightarrow> (\<exists>fs1. iupdate ip' fs1 = Inr fs')
              \<and> dinodes fs' (inum ip) = dinode_of ip'
              \<and> d_size (dinodes fs' (inum ip)) = isize ip')
        \<and> (unat (isize ip) \<le> MAXFILE * BSIZE \<longrightarrow> unat (isize ip') \<le> MAXFILE * BSIZE))
   \<and> MAXFILE * BSIZE = (12 + 256) * 1024"
proof (intro conjI impI)
  assume "isize ip < off \<or> off + n < off \<or> MAXFILE * BSIZE < unat (off + n)"
  then show "writei us src_ok src ip fs off n = Inr (- 1, ip, fs)" by (rule writei_guard)
next
  show "MAXFILE * BSIZE = (12 + 256) * 1024" by (simp add: max_bytes)
next
  assume w: "writei us src_ok src ip fs off n = Inr (r, ip', fs')"
    and s: "r = uint n \<and> isize ip < off + n"
  have g: "\<not> (isize ip < off \<or> off + n < off \<or> MAXFILE * BSIZE < unat (off + n))"
  proof
    assume "isize ip < off \<or> off + n < off \<or> MAXFILE * BSIZE < unat (off + n)"
    from writei_guard[OF this, of us src_ok src fs] w have "r = - 1" by simp
    moreover have "0 \<le> uint n" by simp
    ultimately show False using s by linarith
  qed
  from writei_result[OF w] g obtain tot fs1 where
    t: "tot \<le> n" "r = uint tot"
       "isize ip' = (if isize ip < off + tot then off + tot else isize ip)" by blast
  have "tot = n" using t(2) s by (simp add: word_uint_eq_iff)
  then show "isize ip' = off + n" using t(3) s by simp
next
  assume w: "writei us src_ok src ip fs off n = Inr (r, ip', fs')" and r: "r \<noteq> - 1"
  have g: "\<not> (isize ip < off \<or> off + n < off \<or> MAXFILE * BSIZE < unat (off + n))"
  proof
    assume "isize ip < off \<or> off + n < off \<or> MAXFILE * BSIZE < unat (off + n)"
    from writei_guard[OF this, of us src_ok src fs] w have "r = - 1" by simp
    then show False using r by simp
  qed
  from writei_result[OF w] g obtain tot fs1 where
    t: "inum ip' = inum ip" "iupdate ip' fs1 = Inr fs'" by blast
  show "\<exists>fs1. iupdate ip' fs1 = Inr fs'" using t(2) by blast
  show d: "dinodes fs' (inum ip) = dinode_of ip'" using iupdate_dinode[OF t(2)] t(1) by simp
  show "d_size (dinodes fs' (inum ip)) = isize ip'" unfolding d by (simp add: dinode_of_def)
next
  assume w: "writei us src_ok src ip fs off n = Inr (r, ip', fs')"
    and sz: "unat (isize ip) \<le> MAXFILE * BSIZE"
  show "unat (isize ip') \<le> MAXFILE * BSIZE"
  proof (cases "isize ip < off \<or> off + n < off \<or> MAXFILE * BSIZE < unat (off + n)")
    case True
    from writei_guard[OF this, of us src_ok src fs] w have "ip' = ip" by simp
    then show ?thesis using sz by simp
  next
    case False
    from writei_result[OF w] False obtain tot fs1 where
      t: "tot \<le> n" "isize ip' = (if isize ip < off + tot then off + tot else isize ip)" by blast
    have "off \<le> off + n" using False by (simp add: not_less)
    then have a: "unat (off + n) = unat off + unat n"
      and b: "unat (off + tot) = unat off + unat tot"
      using t(1) by (simp_all add: unat_add_no_wrap unat_add_bounded)
    have "unat tot \<le> unat n" using t(1) by (simp add: word_le_nat_alt)
    then have "unat (off + tot) \<le> unat off + unat n" using b by simp
    then have "unat (off + tot) \<le> MAXFILE * BSIZE" using a False by simp
    then show ?thesis using t(2) sz by simp
  qed
qed

text \<open>
  Writing four bytes at offset 10 of the example file, inside an open transaction: the
  file grows to 14 bytes, and block 50 and the inode block are logged.
\<close>

lemma writei_example:
  "writei 0 (\<lambda>_. True) (\<lambda>_. 7) ex_file ex_fsys 10 4 = Inr (4, ex_file\<lparr>isize := 14\<rparr>, ex_written)"
proof -
  have b: "bmap ex_file 0 ex_fsys = Inr (50, ex_file, ex_fsys)"
    by (simp add: bmap_def ex_file_def NDIRECT_def)
  have f: "frag 4 0 10 = 4" by (simp add: frag_def BSIZE_def)
  let ?fs1 = "ex_fsys\<lparr>fblocks := (fblocks ex_fsys)(50 := put_bytes (fblocks ex_fsys 50) 10 4 (\<lambda>j. 7))\<rparr>"
  let ?fs2 = "?fs1\<lparr>flog := (flog ex_fsys)\<lparr>lh := \<lparr>lh_n = 1, lh_block = (replicate 30 0)[0 := 50]\<rparr>\<rparr>,
                   fpins := (\<lambda>_. 0)(50 := 1)\<rparr>"
  have lb: "log_block 50 ?fs1 = Inr ?fs2"
    by (simp add: log_block_def log_write_def ex_fsys_def LOGSIZE_def MAXOPBLOCKS_def Let_def
        log_scan.simps[of _ _ 0] bpin_def)
  have l: "writei_loop 0 (\<lambda>_. True) (\<lambda>_. 7) 4 ex_file ex_fsys 0 10
             = Inr (4, 14, ex_file, ?fs2)"
    using lb by (simp add: writei_loop_step b f writei_loop_done BSIZE_def)
  have iu: "iupdate (ex_file\<lparr>isize := 14\<rparr>) ?fs2 = Inr ex_written"
    by (simp add: iupdate_def log_block_def log_write_def ex_fsys_def ex_file_def ex_written_def
        LOGSIZE_def MAXOPBLOCKS_def Let_def log_scan.simps[of _ _ 0] log_scan.simps[of _ _ 1]
        bpin_def IPB_def BSIZE_def fun_upd_twist)
  have s: "isize ex_file = 10" by (simp add: ex_file_def)
  show ?thesis by (simp add: writei_def s l max_bytes Let_def iu)
qed

text \<open>
  The theorem at the example file: three refused writes, and the write of 4 bytes at
  offset 10, which extends the file to 14 bytes.
\<close>

theorem writei_max_file_size_witness:
  "writei 0 (\<lambda>_. True) (\<lambda>_. 7) ex_file ex_fsys 11 1 = Inr (- 1, ex_file, ex_fsys)
   \<and> writei 0 (\<lambda>_. True) (\<lambda>_. 7) ex_file ex_fsys 10 4294967295 = Inr (- 1, ex_file, ex_fsys)
   \<and> writei 0 (\<lambda>_. True) (\<lambda>_. 7) ex_file ex_fsys 10 274423 = Inr (- 1, ex_file, ex_fsys)
   \<and> writei 0 (\<lambda>_. True) (\<lambda>_. 7) ex_file ex_fsys 10 4
       = Inr (4, ex_file\<lparr>isize := 14\<rparr>, ex_written)
   \<and> d_size (dinodes ex_written (inum ex_file)) = 14
   \<and> unat (isize (ex_file\<lparr>isize := 14\<rparr>)) \<le> MAXFILE * BSIZE"
proof -
  let ?ok = "\<lambda>_ :: uint. True" and ?src = "\<lambda>_ :: nat. 7 :: uchar"
  let ?ip = "ex_file\<lparr>isize := 14\<rparr>"
  have s: "isize ex_file = 10" by (simp add: ex_file_def)
  note a = writei_max_file_size[of ex_file 11 1 0 ?ok ?src ex_fsys]
  note b = writei_max_file_size[of ex_file 10 4294967295 0 ?ok ?src ex_fsys]
  note c = writei_max_file_size[of ex_file 10 274423 0 ?ok ?src ex_fsys]
  note d = writei_max_file_size[of ex_file 10 4 0 ?ok ?src ex_fsys 4 ?ip ex_written]
  have c1: "writei 0 ?ok ?src ex_file ex_fsys 11 1 = Inr (- 1, ex_file, ex_fsys)"
    using a by (simp add: s)
  have c2: "writei 0 ?ok ?src ex_file ex_fsys 10 4294967295 = Inr (- 1, ex_file, ex_fsys)"
    using b by (simp add: s)
  have c3: "writei 0 ?ok ?src ex_file ex_fsys 10 274423 = Inr (- 1, ex_file, ex_fsys)"
    using c by (simp add: s max_bytes)
  have m: "unat (isize ex_file) \<le> MAXFILE * BSIZE" by (simp add: s max_bytes)
  have c5: "d_size (dinodes ex_written (inum ex_file)) = 14"
    and c6: "unat (isize ?ip) \<le> MAXFILE * BSIZE"
    using d writei_example m by (simp_all add: s dinode_of_def)
  show ?thesis using c1 c2 c3 c5 c6 writei_example by blast
qed

end
